theory Spec2Isabelle
  imports Main
begin

section \<open>Rigol oscilloscope acquisition scripts\<close>

text \<open>
  The repository holds three scripts that talk SCPI to a Rigol oscilloscope over one TCP
  socket: \<^verbatim>\<open>rigolDAQ.py\<close> (called the basic script below),
  \<^verbatim>\<open>rigolDAQ_normal_mode.py\<close> and \<^verbatim>\<open>rigolDAQ_max_mode.py\<close>. Their functions are
  embedded here with the suffixes \<open>_basic\<close>, \<open>_normal\<close> and \<open>_max\<close>.

  Python \<^verbatim>\<open>bytes\<close> and \<^verbatim>\<open>str\<close> are both lists of 8-bit characters. An exception is a
  value \<open>Inl e\<close>; a call that never returns is \<open>None\<close>.
\<close>

subsection \<open>Python values\<close>

type_synonym bytes = "char list"

datatype error =
    NoHeader              \<comment> \<open>the scripts' own \<^verbatim>\<open>ValueError\<close>: no data block header\<close>
  | InvalidLiteral        \<comment> \<open>\<^verbatim>\<open>ValueError\<close> raised by \<^verbatim>\<open>int()\<close> or \<^verbatim>\<open>float()\<close>\<close>
  | UnicodeDecodeError    \<comment> \<open>raised by \<^verbatim>\<open>bytes.decode()\<close>\<close>
  | ConnectionError       \<comment> \<open>raised by \<^verbatim>\<open>receive_waveform_data\<close>\<close>
  | SocketTimeout         \<comment> \<open>\<^verbatim>\<open>socket.timeout\<close> raised by \<^verbatim>\<open>recv\<close>\<close>
  | BlockingIOError       \<comment> \<open>raised by \<^verbatim>\<open>recv\<close> on a non-blocking socket with no data\<close>
  | TimeoutError          \<comment> \<open>raised by the trigger wait\<close>
  | RuntimeError bytes    \<comment> \<open>raised by \<^verbatim>\<open>query_float\<close>, carrying the command\<close>

text \<open>\<^verbatim>\<open>data.find(b'#')\<close>: the index of the first occurrence, or \<open>-1\<close>.\<close>

definition find_byte :: "char \<Rightarrow> bytes \<Rightarrow> int" where
  "find_byte c xs =
     (if c \<in> set xs then int (length (takeWhile (\<lambda>x. x \<noteq> c) xs)) else - 1)"

text \<open>
  \<^verbatim>\<open>xs[i:j]\<close>, \<^verbatim>\<open>xs[i:]\<close> and \<^verbatim>\<open>xs[:j]\<close>: a negative bound counts from the end, and every
  bound is clamped to the list.
\<close>

definition slice_bound :: "'a list \<Rightarrow> int \<Rightarrow> nat" where
  "slice_bound xs i =
     (let n = int (length xs) in
      if i < 0 then nat (max 0 (n + i)) else nat (min i n))"

definition slice :: "'a list \<Rightarrow> int \<Rightarrow> int \<Rightarrow> 'a list" where
  "slice xs i j = take (slice_bound xs j - slice_bound xs i) (drop (slice_bound xs i) xs)"

definition slice_from :: "'a list \<Rightarrow> int \<Rightarrow> 'a list" where
  "slice_from xs i = drop (slice_bound xs i) xs"

definition slice_to :: "'a list \<Rightarrow> int \<Rightarrow> 'a list" where
  "slice_to xs j = take (slice_bound xs j) xs"

text \<open>
  \<^verbatim>\<open>bytes.decode()\<close>. On ASCII input the text has the same characters. A byte from 128
  up is reported as \<^verbatim>\<open>UnicodeDecodeError\<close>: this is what Python does for every single
  byte and for every ill-formed sequence. Python accepts well-formed multi-byte UTF-8
  (and \<^verbatim>\<open>int()\<close> then reads digits of other scripts: \<^verbatim>\<open>b'\xd9\xa3'\<close> is 3); the model
  does not, so it is exact on buffers whose header fields are ASCII, empty or a single
  byte, and the theorems below that name a parsed value are about such fields.
\<close>

definition decode :: "bytes \<Rightarrow> error + string" where
  "decode bs =
     (if list_all (\<lambda>b. (of_char b :: nat) < 128) bs then Inr bs else Inl UnicodeDecodeError)"

definition is_space :: "char \<Rightarrow> bool" where
  "is_space c = ((of_char c :: nat) \<in> {9, 10, 11, 12, 13, 28, 29, 30, 31, 32})"

definition strip :: "string \<Rightarrow> string" where
  "strip s = rev (dropWhile is_space (rev (dropWhile is_space s)))"

text \<open>
  \<^verbatim>\<open>int()\<close> skips a narrower set of characters around an ASCII literal than
  \<^verbatim>\<open>str.strip()\<close> removes: the separators 28 to 31 are whitespace for \<^verbatim>\<open>strip()\<close>, and
  \<^verbatim>\<open>int('\x1c5')\<close> raises.
\<close>

definition is_int_space :: "char \<Rightarrow> bool" where
  "is_int_space c = ((of_char c :: nat) \<in> {9, 10, 11, 12, 13, 32})"

definition int_strip :: "string \<Rightarrow> string" where
  "int_strip s = rev (dropWhile is_int_space (rev (dropWhile is_int_space s)))"

definition is_digit :: "char \<Rightarrow> bool" where
  "is_digit c = (48 \<le> (of_char c :: nat) \<and> (of_char c :: nat) \<le> 57)"

definition digit_val :: "char \<Rightarrow> nat" where
  "digit_val c = of_char c - 48"

text \<open>
  The digits of a decimal literal as \<^verbatim>\<open>int()\<close> reads them: at least one digit, and single
  underscores allowed between digits.
\<close>

fun digits_loop :: "nat \<Rightarrow> string \<Rightarrow> nat option" where
  "digits_loop acc [] = Some acc"
| "digits_loop acc [c] = (if is_digit c then Some (10 * acc + digit_val c) else None)"
| "digits_loop acc (c # d # cs) =
     (if is_digit c then digits_loop (10 * acc + digit_val c) (d # cs)
      else if c = CHR ''_'' \<and> is_digit d then digits_loop (10 * acc + digit_val d) cs
      else None)"

definition py_digits :: "string \<Rightarrow> nat option" where
  "py_digits s =
     (case s of [] \<Rightarrow> None
      | c # cs \<Rightarrow> if is_digit c then digits_loop (digit_val c) cs else None)"

text \<open>
  \<^verbatim>\<open>int(s)\<close> for an ASCII text \<open>s\<close>: surrounding whitespace, an optional sign, the
  digits.
\<close>

definition py_int :: "string \<Rightarrow> error + int" where
  "py_int s =
     (let t = int_strip s;
          neg = (t \<noteq> [] \<and> hd t = CHR ''-'');
          ds = (if t \<noteq> [] \<and> (hd t = CHR ''-'' \<or> hd t = CHR ''+'') then tl t else t)
      in case py_digits ds of
           None \<Rightarrow> Inl InvalidLiteral
         | Some n \<Rightarrow> Inr (if neg then - int n else int n))"

text \<open>\<^verbatim>\<open>int(bs.decode())\<close>, as the header fields are read.\<close>

definition int_of_bytes :: "bytes \<Rightarrow> error + int" where
  "int_of_bytes bs = (case decode bs of Inl e \<Rightarrow> Inl e | Inr s \<Rightarrow> py_int s)"

text \<open>
  The number that a string of decimal digits denotes: the reference against which the
  header parser is checked on well-formed length fields.
\<close>

definition dec_val :: "string \<Rightarrow> nat" where
  "dec_val ds = foldl (\<lambda>a c. 10 * a + digit_val c) 0 ds"

text \<open>\<^verbatim>\<open>str(n)\<close> for a channel number, as the f-strings format it.\<close>

fun str_nat :: "nat \<Rightarrow> string" where
  "str_nat n =
     (if n < 10 then [''0123456789'' ! n]
      else str_nat (n div 10) @ [''0123456789'' ! (n mod 10)])"

declare str_nat.simps [simp del]

subsection \<open>The socket and the clock\<close>

text \<open>
  The scripts share one global socket \<^verbatim>\<open>s\<close>. The world records what was written to it,
  what the successive \<^verbatim>\<open>recv\<close> calls will find, the socket's timeout and a clock in
  milliseconds.

  An event \<open>Data c\<close> with \<open>c \<noteq> []\<close> is a run of bytes that one \<^verbatim>\<open>recv\<close> finds
  available; \<open>Data []\<close> is the peer having closed the connection (\<^verbatim>\<open>recv\<close> returns
  \<^verbatim>\<open>b''\<close>, from then on always); \<open>Quiet\<close> is a silence that outlasts the socket's
  timeout. After the last event nothing arrives any more.

  The clock moves when the script sleeps and when a \<^verbatim>\<open>recv\<close> times out; data that is
  available is taken to be delivered at once.
\<close>

datatype event = Data bytes | Quiet

record world =
  sent :: "bytes list"
  inbox :: "event list"
  sock_timeout :: nat
  now :: nat

definition sleep :: "nat \<Rightarrow> world \<Rightarrow> world" where
  "sleep ms w = w\<lparr>now := now w + ms\<rparr>"

text \<open>\<^verbatim>\<open>s.sendall(f'{cmd}\n'.encode())\<close>.\<close>

definition send_command :: "bytes \<Rightarrow> world \<Rightarrow> world" where
  "send_command cmd w = w\<lparr>sent := sent w @ [cmd @ [CHR 0x0A]]\<rparr>"

text \<open>\<^verbatim>\<open>s.recv(n)\<close> on a socket with a timeout (the normal-mode and max-mode scripts).\<close>

definition recv :: "nat \<Rightarrow> world \<Rightarrow> (error + bytes) \<times> world" where
  "recv n w =
     (case inbox w of
        [] \<Rightarrow> (Inl SocketTimeout, w\<lparr>now := now w + sock_timeout w\<rparr>)
      | Quiet # es \<Rightarrow> (Inl SocketTimeout, w\<lparr>inbox := es, now := now w + sock_timeout w\<rparr>)
      | Data c # es \<Rightarrow>
          if c = [] then (Inr [], w)
          else if length c \<le> n then (Inr c, w\<lparr>inbox := es\<rparr>)
          else (Inr (take n c), w\<lparr>inbox := Data (drop n c) # es\<rparr>))"

text \<open>
  \<^verbatim>\<open>s.recv(n)\<close> on a socket without a timeout (the basic script never sets one): a
  silence is waited out, and when nothing arrives any more the call never returns.
\<close>

fun recv_blocking_events :: "nat \<Rightarrow> event list \<Rightarrow> (bytes \<times> event list) option" where
  "recv_blocking_events n [] = None"
| "recv_blocking_events n (Quiet # es) = recv_blocking_events n es"
| "recv_blocking_events n (Data c # es) =
     (if c = [] then Some ([], Data c # es)
      else if length c \<le> n then Some (c, es)
      else Some (take n c, Data (drop n c) # es))"

definition recv_blocking :: "nat \<Rightarrow> world \<Rightarrow> (bytes \<times> world) option" where
  "recv_blocking n w =
     (case recv_blocking_events n (inbox w) of
        None \<Rightarrow> None
      | Some (c, es) \<Rightarrow> Some (c, w\<lparr>inbox := es\<rparr>))"

text \<open>
  \<^verbatim>\<open>s.recv(n)\<close> on a non-blocking socket (inside \<^verbatim>\<open>flush_socket\<close>): what is there
  now, or \<^verbatim>\<open>BlockingIOError\<close>.
\<close>

definition recv_nowait :: "nat \<Rightarrow> world \<Rightarrow> (error + bytes) \<times> world" where
  "recv_nowait n w =
     (case inbox w of
        [] \<Rightarrow> (Inl BlockingIOError, w)
      | Quiet # es \<Rightarrow> (Inl BlockingIOError, w)
      | Data c # es \<Rightarrow>
          if c = [] then (Inr [], w)
          else if length c \<le> n then (Inr c, w\<lparr>inbox := es\<rparr>)
          else (Inr (take n c), w\<lparr>inbox := Data (drop n c) # es\<rparr>))"

text \<open>The size of an inbox: what every successful read of data makes smaller.\<close>

fun event_size :: "event \<Rightarrow> nat" where
  "event_size (Data c) = Suc (length c)"
| "event_size Quiet = 1"

definition inbox_size :: "event list \<Rightarrow> nat" where
  "inbox_size es = sum_list (map event_size es)"

subsection \<open>The waveform block\<close>

text \<open>
  All three scripts read the block header \<^verbatim>\<open>#<d><L>\<close> by searching the buffer for
  \<^verbatim>\<open>#\<close> and slicing. The functions below return the payload bytes that the scripts
  hand to \<^verbatim>\<open>np.frombuffer\<close>; the calibration that follows is floating-point
  arithmetic on those bytes and is not part of the model, so the calibration parameters
  of \<^verbatim>\<open>get_waveform_data\<close> and \<^verbatim>\<open>get_waveform\<close> are left out.
\<close>

text \<open>
  The two header lines are the same in the three scripts (\<^verbatim>\<open>rigolDAQ.py\<close> 60 and 61,
  \<^verbatim>\<open>rigolDAQ_max_mode.py\<close> 82 and 83, \<^verbatim>\<open>rigolDAQ_normal_mode.py\<close> 72 and 73): the digit
  after the marker is the length of the length field, the length field is the byte count.
\<close>

definition read_header :: "bytes \<Rightarrow> int \<Rightarrow> error + int \<times> int" where
  "read_header data start =
     (case int_of_bytes (slice data (start + 1) (start + 2)) of
        Inl e \<Rightarrow> Inl e
      | Inr header_len \<Rightarrow>
          (case int_of_bytes (slice data (start + 2) (start + 2 + header_len)) of
             Inl e \<Rightarrow> Inl e
           | Inr byte_count \<Rightarrow> Inr (header_len, byte_count)))"

text \<open>\<^verbatim>\<open>rigolDAQ.py\<close>, lines 56 to 62: the payload is cut out of the one buffer.\<close>

definition decode_block_basic :: "bytes \<Rightarrow> error + bytes" where
  "decode_block_basic data =
     (let start_idx = find_byte CHR ''#'' data in
      if start_idx = - 1 then Inl NoHeader
      else case read_header data start_idx of
        Inl e \<Rightarrow> Inl e
      | Inr (header_length, byte_count) \<Rightarrow>
          Inr (slice data (start_idx + 2 + header_length)
                 (start_idx + 2 + header_length + byte_count)))"

text \<open>\<^verbatim>\<open>rigolDAQ_max_mode.py\<close>, \<^verbatim>\<open>receive_data\<close>: chunks until a short one or a timeout.\<close>

function receive_data_loop :: "nat \<Rightarrow> bytes \<Rightarrow> world \<Rightarrow> bytes \<times> world" where
  "receive_data_loop buffer_size chunks w =
     (case recv buffer_size w of
        (Inl e, w') \<Rightarrow> (chunks, w')
      | (Inr chunk, w') \<Rightarrow>
          if chunk = [] then (chunks, w')
          else if length chunk < buffer_size then (chunks @ chunk, w')
          else receive_data_loop buffer_size (chunks @ chunk) w')"
  by pat_completeness auto

termination
proof (relation "measure (\<lambda>(n, acc, w). inbox_size (inbox w))")
  show "wf (measure (\<lambda>(n, acc, w). inbox_size (inbox w)))" by simp
next
  fix buffer_size :: nat and chunks :: bytes and w x y b
  assume "(x, y) = recv buffer_size w" "x = Inr b" "b \<noteq> []" "\<not> length b < buffer_size"
  then have "inbox_size (inbox y) < inbox_size (inbox w)"
    by (auto simp: recv_def inbox_size_def split: list.splits event.splits if_splits)
  then show "((buffer_size, chunks @ b, y), (buffer_size, chunks, w))
      \<in> measure (\<lambda>(n, acc, w). inbox_size (inbox w))"
    by simp
qed

declare receive_data_loop.simps [simp del]

definition receive_data_max :: "nat \<Rightarrow> world \<Rightarrow> bytes \<times> world" where
  "receive_data_max buffer_size w = receive_data_loop buffer_size [] (w\<lparr>sock_timeout := 100\<rparr>)"

text \<open>\<^verbatim>\<open>rigolDAQ_max_mode.py\<close>, \<^verbatim>\<open>receive_waveform_data\<close>: read until the count is reached.\<close>

function receive_waveform_loop :: "int \<Rightarrow> nat \<Rightarrow> bytes \<Rightarrow> world \<Rightarrow> (error + bytes) \<times> world" where
  "receive_waveform_loop byte_count buffer_size received w =
     (if int (length received) < byte_count then
        (case recv (min buffer_size (nat (byte_count - int (length received)))) w of
           (Inl e, w') \<Rightarrow> (Inl e, w')
         | (Inr chunk, w') \<Rightarrow>
             if chunk = [] then (Inl ConnectionError, w')
             else receive_waveform_loop byte_count buffer_size (received @ chunk) w')
      else (Inr received, w))"
  by pat_completeness auto
termination
proof (relation "measure (\<lambda>(byte_count, n, received, w). nat (byte_count - int (length received)))")
  show "wf (measure (\<lambda>(byte_count, n, received, w). nat (byte_count - int (length received))))"
    by simp
next
  fix byte_count :: int and buffer_size :: nat and received :: bytes and w y :: world
    and b :: bytes
  assume "int (length received) < byte_count" "b \<noteq> []"
  then show "((byte_count, buffer_size, received @ b, y), (byte_count, buffer_size, received, w))
      \<in> measure (\<lambda>(byte_count, n, received, w). nat (byte_count - int (length received)))"
    by (cases b) auto
qed

declare receive_waveform_loop.simps [simp del]

definition receive_waveform_data :: "int \<Rightarrow> nat \<Rightarrow> world \<Rightarrow> (error + bytes) \<times> world" where
  "receive_waveform_data byte_count buffer_size w =
     receive_waveform_loop byte_count buffer_size [] w"

text \<open>
  \<^verbatim>\<open>rigolDAQ_max_mode.py\<close>, lines 82 to 88: the header is read from the buffer, the rest
  of the payload from the socket.
\<close>

definition decode_block_max :: "bytes \<Rightarrow> world \<Rightarrow> (error + bytes) \<times> world" where
  "decode_block_max data w =
     (let start = find_byte CHR ''#'' data in
      case read_header data start of
        Inl e \<Rightarrow> (Inl e, w)
      | Inr (header_len, byte_count) \<Rightarrow>
          let waveform_data = slice_from data (start + 2 + header_len) in
          if int (length waveform_data) < byte_count then
            (case receive_waveform_data (byte_count - int (length waveform_data)) 4096 w of
               (Inl e, w') \<Rightarrow> (Inl e, w')
             | (Inr rest, w') \<Rightarrow> (Inr (slice_to (waveform_data @ rest) byte_count), w'))
          else (Inr (slice_to waveform_data byte_count), w))"

text \<open>
  \<^verbatim>\<open>rigolDAQ_max_mode.py\<close>, lines 71 to 80: up to three queries until a buffer holds the
  marker.
\<close>

fun fetch_header_max :: "nat \<Rightarrow> world \<Rightarrow> (error + bytes) \<times> world" where
  "fetch_header_max 0 w = (Inl NoHeader, w)"
| "fetch_header_max (Suc attempts) w =
     (let (data, w') = receive_data_max 4096 (send_command ''WAVeform:DATA?'' w) in
      if find_byte CHR ''#'' data \<noteq> - 1 then (Inr data, w')
      else fetch_header_max attempts (sleep 100 w'))"

definition get_waveform_data_max :: "nat \<Rightarrow> world \<Rightarrow> (error + bytes) \<times> world" where
  "get_waveform_data_max channel w =
     (case fetch_header_max 3 (send_command (''WAVeform:SOURce CHAN'' @ str_nat channel) w) of
        (Inl e, w') \<Rightarrow> (Inl e, w')
      | (Inr data, w') \<Rightarrow> decode_block_max data w')"

text \<open>
  \<^verbatim>\<open>rigolDAQ_normal_mode.py\<close>, lines 71 to 79: the buffer is not checked for the marker,
  and the rest of the payload is read in a loop that a closed connection never leaves.
\<close>

partial_function (option) read_rest_normal ::
    "int \<Rightarrow> bytes \<Rightarrow> world \<Rightarrow> ((error + bytes) \<times> world) option" where
  "read_rest_normal byte_count waveform_data w =
     (if int (length waveform_data) < byte_count then
        (case recv (nat (byte_count - int (length waveform_data))) w of
           (Inl e, w') \<Rightarrow> Some (Inl e, w')
         | (Inr chunk, w') \<Rightarrow> read_rest_normal byte_count (waveform_data @ chunk) w')
      else Some (Inr waveform_data, w))"

definition decode_block_normal :: "bytes \<Rightarrow> world \<Rightarrow> ((error + bytes) \<times> world) option" where
  "decode_block_normal data w =
     (let start = find_byte CHR ''#'' data in
      case read_header data start of
        Inl e \<Rightarrow> Some (Inl e, w)
      | Inr (header_len, byte_count) \<Rightarrow>
          (case read_rest_normal byte_count (slice_from data (start + 2 + header_len)) w of
             None \<Rightarrow> None
           | Some (Inl e, w') \<Rightarrow> Some (Inl e, w')
           | Some (Inr waveform_data, w') \<Rightarrow>
               Some (Inr (slice_to waveform_data byte_count), w')))"

definition get_waveform_normal :: "nat \<Rightarrow> world \<Rightarrow> ((error + bytes) \<times> world) option" where
  "get_waveform_normal channel w =
     (case recv 4096 (send_command ''WAVeform:DATA?''
             (send_command (''WAVeform:SOURce CHAN'' @ str_nat channel) w)) of
        (Inl e, w') \<Rightarrow> Some (Inl e, w')
      | (Inr data, w') \<Rightarrow> decode_block_normal data w')"

subsection \<open>Scalar queries\<close>

text \<open>
  \<^verbatim>\<open>float()\<close> is a parameter \<open>py_float\<close> of the query functions: the text it accepts and
  the floating-point value it returns are Python's, not the repository's.
\<close>




text \<open>
  \<^verbatim>\<open>rigolDAQ_max_mode.py\<close>, \<^verbatim>\<open>query_float\<close>: every attempt sends the command again; an
  empty reply and any exception of the \<^verbatim>\<open>try\<close> block lead to the pause and the next
  attempt.
\<close>

fun query_float_max ::
    "(string \<Rightarrow> 'f option) \<Rightarrow> bytes \<Rightarrow> nat \<Rightarrow> world \<Rightarrow> (error + 'f) \<times> world" where
  "query_float_max py_float command 0 w = (Inl (RuntimeError command), w)"
| "query_float_max py_float command (Suc retries) w =
     (let (data, w') = receive_data_max 4096 (send_command command w) in
      case decode data of
        Inl e \<Rightarrow> query_float_max py_float command retries (sleep 10 w')
      | Inr txt \<Rightarrow>
          let resp = strip txt in
          if resp \<noteq> [] then
            (case py_float resp of
               Some v \<Rightarrow> (Inr v, w')
             | None \<Rightarrow> query_float_max py_float command retries (sleep 10 w'))
          else query_float_max py_float command retries (sleep 10 w'))"


subsection \<open>Waiting for the trigger\<close>

text \<open>\<^verbatim>\<open>rigolDAQ.py\<close>, \<^verbatim>\<open>get_trigger_status\<close> and the loop of lines 109 to 112.\<close>

definition get_trigger_status_basic :: "world \<Rightarrow> ((error + string) \<times> world) option" where
  "get_trigger_status_basic w =
     (case recv_blocking 4096 (send_command ''TRIGger:STATus?'' w) of
        None \<Rightarrow> None
      | Some (data, w') \<Rightarrow>
          (case decode data of
             Inl e \<Rightarrow> Some (Inl e, w')
           | Inr txt \<Rightarrow> Some (Inr (strip txt), w')))"


text \<open>\<^verbatim>\<open>rigolDAQ_normal_mode.py\<close>, \<^verbatim>\<open>wait_for_trigger\<close>; times are in milliseconds.\<close>

function wait_loop_normal :: "nat \<Rightarrow> nat \<Rightarrow> world \<Rightarrow> (error + unit) \<times> world" where
  "wait_loop_normal timeout start w =
     (case recv 4096 (send_command ''TRIGger:STATus?'' w) of
        (Inl e, w') \<Rightarrow> (Inl e, w')
      | (Inr data, w') \<Rightarrow>
          (case decode data of
             Inl e \<Rightarrow> (Inl e, w')
           | Inr txt \<Rightarrow>
               if strip txt = ''TD'' then (Inr (), w')
               else if now w' - start > timeout then (Inl TimeoutError, w')
               else wait_loop_normal timeout start (sleep 1 w')))"
  by pat_completeness auto
termination
proof (relation "measure (\<lambda>(timeout, start, w). Suc (start + timeout) - now w)")
  show "wf (measure (\<lambda>(timeout, start, w). Suc (start + timeout) - now w))" by simp
next
  fix timeout start :: nat and w y :: world and x and data :: bytes
  assume r: "(x, y) = recv 4096 (send_command ''TRIGger:STATus?'' w)" "x = Inr data"
    and t: "\<not> timeout < now y - start"
  from r have "now w \<le> now y"
    by (auto simp: recv_def send_command_def split: list.splits event.splits if_splits)
  with t show "((timeout, start, sleep 1 y), (timeout, start, w))
      \<in> measure (\<lambda>(timeout, start, w). Suc (start + timeout) - now w)"
    by (simp add: sleep_def)
qed

declare wait_loop_normal.simps [simp del]

definition wait_for_trigger_normal :: "nat \<Rightarrow> world \<Rightarrow> (error + unit) \<times> world" where
  "wait_for_trigger_normal timeout w = wait_loop_normal timeout (now w) w"

text \<open>
  \<^verbatim>\<open>rigolDAQ_max_mode.py\<close>, \<^verbatim>\<open>get_trigger_status\<close> and the loop of lines 173 to 178.
\<close>

definition get_trigger_status_max :: "world \<Rightarrow> (error + string) \<times> world" where
  "get_trigger_status_max w =
     (let (data, w') = receive_data_max 4096 (send_command ''TRIGger:STATus?'' w) in
      case decode data of Inl e \<Rightarrow> (Inl e, w') | Inr txt \<Rightarrow> (Inr (strip txt), w'))"

lemma receive_data_loop_now: "now w \<le> now (snd (receive_data_loop n chunks w))"
proof (induction n chunks w rule: receive_data_loop.induct)
  case (1 n chunks w)
  obtain r w' where r: "recv n w = (r, w')" by (cases "recv n w")
  then have le: "now w \<le> now w'"
    by (auto simp: recv_def split: list.splits event.splits if_splits)
  show ?case
  proof (cases r)
    case (Inl e)
    with r le show ?thesis by (simp add: receive_data_loop.simps [of n chunks w])
  next
    case (Inr chunk)
    with r le "1.IH" show ?thesis
      by (fastforce simp: receive_data_loop.simps [of n chunks w] intro: le_trans)
  qed
qed

lemma get_trigger_status_max_now: "now w \<le> now (snd (get_trigger_status_max w))"
  using receive_data_loop_now [of "send_command ''TRIGger:STATus?'' w\<lparr>sock_timeout := 100\<rparr>" 4096 "[]"]
  by (auto simp: get_trigger_status_max_def receive_data_max_def send_command_def
      split: prod.splits sum.splits)

function trigger_wait_max :: "nat \<Rightarrow> world \<Rightarrow> (error + unit) \<times> world" where
  "trigger_wait_max trigger_start w =
     (case get_trigger_status_max w of
        (Inl e, w') \<Rightarrow> (Inl e, w')
      | (Inr status, w') \<Rightarrow>
          if status = ''TD'' then (Inr (), w')
          else if now w' - trigger_start > 10000 then (Inl TimeoutError, w')
          else trigger_wait_max trigger_start (sleep 100 w'))"
  by pat_completeness auto
termination
proof (relation "measure (\<lambda>(trigger_start, w). trigger_start + 10001 - now w)")
  show "wf (measure (\<lambda>(trigger_start, w). trigger_start + 10001 - now w))" by simp
next
  fix trigger_start :: nat and w y :: world and x
  assume r: "(x, y) = get_trigger_status_max w" and t: "\<not> 10000 < now y - trigger_start"
  from r have "now w \<le> now y"
    using get_trigger_status_max_now [of w] by (metis snd_conv)
  with t show "((trigger_start, sleep 100 y), (trigger_start, w))
      \<in> measure (\<lambda>(trigger_start, w). trigger_start + 10001 - now w)"
    by (simp add: sleep_def)
qed

declare trigger_wait_max.simps [simp del]

text \<open>
  \<^verbatim>\<open>rigolDAQ_max_mode.py\<close>, \<^verbatim>\<open>flush_socket\<close>: reads without waiting until nothing is there.
  \<^verbatim>\<open>setblocking(True)\<close> at its end clears the timeout; every \<^verbatim>\<open>recv\<close> that follows in
  the script comes after the \<^verbatim>\<open>settimeout(0.1)\<close> of \<^verbatim>\<open>receive_data\<close>.
\<close>

partial_function (option) flush_socket :: "world \<Rightarrow> world option" where
  "flush_socket w =
     (case recv_nowait 4096 w of
        (Inl e, w') \<Rightarrow> Some w'
      | (Inr chunk, w') \<Rightarrow> flush_socket w')"

subsection \<open>One pass of the acquisition loop\<close>



definition arm_scope_normal :: "world \<Rightarrow> world" where
  "arm_scope_normal w = send_command '':SING'' w"

definition acquire_normal :: "world \<Rightarrow> ((error + bytes \<times> bytes) \<times> world) option" where
  "acquire_normal w =
     (case wait_for_trigger_normal 10000 (arm_scope_normal w) of
        (Inl e, w1) \<Rightarrow> Some (Inl e, w1)
      | (Inr u, w1) \<Rightarrow>
     (case get_waveform_normal 3 w1 of
        None \<Rightarrow> None
      | Some (Inl e, w2) \<Rightarrow> Some (Inl e, w2)
      | Some (Inr voltage_ch3, w2) \<Rightarrow>
     (case get_waveform_normal 4 w2 of
        None \<Rightarrow> None
      | Some (Inl e, w3) \<Rightarrow> Some (Inl e, w3)
      | Some (Inr voltage_ch4, w3) \<Rightarrow> Some (Inr (voltage_ch3, voltage_ch4), w3))))"

definition acquire_max :: "world \<Rightarrow> ((error + bytes \<times> bytes) \<times> world) option" where
  "acquire_max w =
     (case flush_socket w of
        None \<Rightarrow> None
      | Some w0 \<Rightarrow>
     (let w1 = send_command '':SINGle'' (sleep 50 w0) in
      case trigger_wait_max (now w1) w1 of
        (Inl e, w2) \<Rightarrow> Some (Inl e, w2)
      | (Inr u, w2) \<Rightarrow>
     (case get_waveform_data_max 3 (sleep 50 (send_command '':STOP'' w2)) of
        (Inl e, w3) \<Rightarrow> Some (Inl e, w3)
      | (Inr voltage_ch3, w3) \<Rightarrow>
     (case flush_socket w3 of
        None \<Rightarrow> None
      | Some w4 \<Rightarrow>
     (case get_waveform_data_max 4 w4 of
        (Inl e, w5) \<Rightarrow> Some (Inl e, w5)
      | (Inr voltage_ch4, w5) \<Rightarrow> Some (Inr (voltage_ch3, voltage_ch4), w5))))))"


subsection \<open>The order of commands\<close>

text \<open>
  A monitor over the commands written to the socket, for the rule that waveform data is
  fetched from a halted acquisition only: \<^verbatim>\<open>:STOP\<close> halts, the arming commands start
  an acquisition, and \<^verbatim>\<open>WAVeform:DATA?\<close> is allowed only while halted. The result is
  \<open>None\<close> when the rule is broken and the last state otherwise.
\<close>

fun halted_at_fetch :: "bool \<Rightarrow> bytes list \<Rightarrow> bool option" where
  "halted_at_fetch halted [] = Some halted"
| "halted_at_fetch halted (cmd # cmds) =
     (if cmd = '':STOP'' @ [CHR 0x0A] then halted_at_fetch True cmds
      else if cmd = '':SINGle'' @ [CHR 0x0A] \<or> cmd = '':SING'' @ [CHR 0x0A]
              \<or> cmd = ''TRIGger:SWEep SINGle'' @ [CHR 0x0A]
        then halted_at_fetch False cmds
      else if cmd = ''WAVeform:DATA?'' @ [CHR 0x0A]
        then (if halted then halted_at_fetch halted cmds else None)
      else halted_at_fetch halted cmds)"

section \<open>Properties\<close>

subsection \<open>Searching and slicing\<close>

lemma takeWhile_skip:
  "c \<notin> set pre \<Longrightarrow> takeWhile (\<lambda>x. x \<noteq> c) (pre @ xs) = pre @ takeWhile (\<lambda>x. x \<noteq> c) xs"
  by (induction pre) auto

lemma find_byte_absent: "c \<notin> set xs \<Longrightarrow> find_byte c xs = - 1"
  by (simp add: find_byte_def)

lemma find_byte_present: "c \<in> set xs \<Longrightarrow> 0 \<le> find_byte c xs"
  by (simp add: find_byte_def)

lemma find_byte_append:
  "c \<notin> set pre \<Longrightarrow> c \<in> set xs \<Longrightarrow> find_byte c (pre @ xs) = int (length pre) + find_byte c xs"
  by (simp add: find_byte_def takeWhile_skip)

lemma slice_nonneg:
  "0 \<le> i \<Longrightarrow> 0 \<le> j \<Longrightarrow> slice xs i j = take (nat j - nat i) (drop (nat i) xs)"
  by (auto simp: slice_def slice_bound_def Let_def min_def)

lemma slice_from_nonneg: "0 \<le> i \<Longrightarrow> slice_from xs i = drop (nat i) xs"
  by (auto simp: slice_from_def slice_bound_def Let_def min_def)

lemma slice_to_nonneg: "0 \<le> j \<Longrightarrow> slice_to xs j = take (nat j) xs"
  by (auto simp: slice_to_def slice_bound_def Let_def min_def)

lemma slice_shift:
  "0 \<le> i \<Longrightarrow> 0 \<le> j \<Longrightarrow> slice (pre @ xs) (int (length pre) + i) (int (length pre) + j) = slice xs i j"
  by (simp add: slice_nonneg nat_add_distrib)

lemma slice_from_shift:
  "0 \<le> i \<Longrightarrow> slice_from (pre @ xs) (int (length pre) + i) = slice_from xs i"
  by (simp add: slice_from_nonneg nat_add_distrib)

lemma length_int_strip: "length (int_strip s) \<le> length s"
  unfolding int_strip_def
  by (metis length_rev length_dropWhile_le le_trans)

lemma int_of_bytes_short_nonneg:
  assumes "length bs \<le> 1" "int_of_bytes bs = Inr v"
  shows "0 \<le> v"
proof -
  from assms have s: "py_int bs = Inr v"
    by (auto simp: int_of_bytes_def decode_def split: if_splits)
  have "length (int_strip bs) \<le> 1" using length_int_strip [of bs] assms(1) by simp
  then have "int_strip bs = [] \<or> (\<exists>c. int_strip bs = [c])"
    by (cases "int_strip bs") auto
  with s show ?thesis
    by (auto simp: py_int_def Let_def py_digits_def split: option.splits if_splits)
qed


lemma length_slice_unit: "length (slice xs (i + 1) (i + 2)) \<le> 1"
  by (auto simp: slice_def slice_bound_def Let_def)

lemma header_len_nonneg:
  "int_of_bytes (slice data (start + 1) (start + 2)) = Inr header_len \<Longrightarrow> 0 \<le> header_len"
  using int_of_bytes_short_nonneg [OF length_slice_unit] by blast

lemma read_header_shift:
  assumes "0 \<le> start"
  shows "read_header (pre @ data) (int (length pre) + start) = read_header data start"
proof -
  have d: "slice (pre @ data) (int (length pre) + start + 1) (int (length pre) + start + 2)
      = slice data (start + 1) (start + 2)"
    using slice_shift [of "start + 1" "start + 2" pre data] assms by (simp add: add.assoc)
  have l: "slice (pre @ data) (int (length pre) + start + 2) (int (length pre) + start + 2 + h)
      = slice data (start + 2) (start + 2 + h)" if "0 \<le> h" for h
    using slice_shift [of "start + 2" "start + 2 + h" pre data] assms that
    by (simp add: add.assoc)
  show ?thesis
    unfolding read_header_def d
    by (auto split: sum.splits simp: l dest: header_len_nonneg)
qed

lemma read_header_nonneg:
  "read_header data start = Inr (header_len, byte_count) \<Longrightarrow> 0 \<le> header_len"
  by (auto simp: read_header_def split: sum.splits dest: header_len_nonneg)

lemma decode_block_max_shift:
  assumes "CHR ''#'' \<notin> set pre" "CHR ''#'' \<in> set data"
  shows "decode_block_max (pre @ data) w = decode_block_max data w"
proof -
  let ?start = "find_byte CHR ''#'' data"
  have s0: "0 \<le> ?start" using assms(2) by (rule find_byte_present)
  have f: "find_byte CHR ''#'' (pre @ data) = int (length pre) + ?start"
    using assms by (rule find_byte_append)
  have w: "slice_from (pre @ data) (int (length pre) + ?start + 2 + h)
      = slice_from data (?start + 2 + h)" if "0 \<le> h" for h
    using slice_from_shift [of "?start + 2 + h" pre data] s0 that by (simp add: add.assoc)
  show ?thesis
    unfolding decode_block_max_def f Let_def read_header_shift [OF s0]
    by (auto split: sum.splits prod.splits simp: w dest: read_header_nonneg)
qed

lemma decode_block_normal_shift:
  assumes "CHR ''#'' \<notin> set pre" "CHR ''#'' \<in> set data"
  shows "decode_block_normal (pre @ data) w = decode_block_normal data w"
proof -
  let ?start = "find_byte CHR ''#'' data"
  have s0: "0 \<le> ?start" using assms(2) by (rule find_byte_present)
  have f: "find_byte CHR ''#'' (pre @ data) = int (length pre) + ?start"
    using assms by (rule find_byte_append)
  have w: "slice_from (pre @ data) (int (length pre) + ?start + 2 + h)
      = slice_from data (?start + 2 + h)" if "0 \<le> h" for h
    using slice_from_shift [of "?start + 2 + h" pre data] s0 that by (simp add: add.assoc)
  show ?thesis
    unfolding decode_block_normal_def f Let_def read_header_shift [OF s0]
    by (auto split: sum.splits prod.splits simp: w dest: read_header_nonneg)
qed

lemma decode_block_basic_shift:
  assumes "CHR ''#'' \<notin> set pre" "CHR ''#'' \<in> set data"
    and "\<And>header_len byte_count.
      read_header data (find_byte CHR ''#'' data) = Inr (header_len, byte_count) \<Longrightarrow> 0 \<le> byte_count"
  shows "decode_block_basic (pre @ data) = decode_block_basic data"
proof -
  let ?start = "find_byte CHR ''#'' data"
  have s0: "0 \<le> ?start" using assms(2) by (rule find_byte_present)
  have f: "find_byte CHR ''#'' (pre @ data) = int (length pre) + ?start"
    using assms(1,2) by (rule find_byte_append)
  have w: "slice (pre @ data) (int (length pre) + ?start + 2 + h) (int (length pre) + ?start + 2 + h + b)
      = slice data (?start + 2 + h) (?start + 2 + h + b)" if "0 \<le> h" "0 \<le> b" for h b
    using slice_shift [of "?start + 2 + h" "?start + 2 + h + b" pre data] s0 that
    by (simp add: add.assoc)
  show ?thesis
  proof (cases "read_header data ?start")
    case (Inl e)
    then show ?thesis
      unfolding decode_block_basic_def f Let_def read_header_shift [OF s0] using s0 by simp
  next
    case (Inr hb)
    obtain h b where hb: "hb = (h, b)" by (cases hb)
    from Inr hb have "0 \<le> h" "0 \<le> b"
      using read_header_nonneg assms(3) by blast+
    then show ?thesis
      unfolding decode_block_basic_def f Let_def read_header_shift [OF s0]
      using s0 Inr hb by (simp add: w)
  qed
qed

subsection \<open>Bytes before the marker\<close>

text \<open>
  Evaluation rules for the header parser on closed byte strings.
\<close>

lemmas parse_defs =
  find_byte_def read_header_def int_of_bytes_def decode_def slice_def slice_from_def slice_to_def
  slice_bound_def py_int_def int_strip_def is_int_space_def py_digits_def is_digit_def digit_val_def
  Let_def

text \<open>
  C10, as stated, fails for the basic script. Its payload slice ends at
  \<^verbatim>\<open>start_idx + 2 + header_length + byte_count\<close>, and \<^verbatim>\<open>int()\<close> accepts a sign: with the
  length field \<^verbatim>\<open>-5\<close> the end is \<open>-1\<close> for the buffer \<^verbatim>\<open>#2-5ABCD\<close> (one byte before
  the end of the buffer) and \<open>1\<close> once two bytes are put in front of it (before the start
  of the slice).
\<close>

theorem basic_prefix_changes_payload:
  "CHR ''#'' \<notin> set ''xx'' \<and> CHR ''#'' \<in> set ''#2-5ABCD''
   \<and> decode_block_basic ''#2-5ABCD'' = Inr ''ABC''
   \<and> decode_block_basic (''xx'' @ ''#2-5ABCD'') = Inr []"
  by (simp add: decode_block_basic_def parse_defs)

text \<open>
  C10, amended: for every buffer that contains the marker, bytes without a marker put in
  front of it change nothing in what the max-mode and the normal-mode decoders do (result
  and reads alike), and nothing in the result of the basic decoder when the byte count
  read from the header is not negative.
\<close>

theorem marker_prefix_skipped:
  assumes "CHR ''#'' \<notin> set pre" and "CHR ''#'' \<in> set data"
  shows "decode_block_max (pre @ data) w = decode_block_max data w
    \<and> decode_block_normal (pre @ data) w = decode_block_normal data w
    \<and> ((\<forall>header_len byte_count.
          read_header data (find_byte CHR ''#'' data) = Inr (header_len, byte_count)
          \<longrightarrow> 0 \<le> byte_count)
       \<longrightarrow> decode_block_basic (pre @ data) = decode_block_basic data)"
  using assms decode_block_max_shift decode_block_normal_shift decode_block_basic_shift
  by blast

theorem marker_prefix_skipped_witness:
  "decode_block_max (''xx'' @ ''#15hello'') \<lparr>sent = [], inbox = [], sock_timeout = 100, now = 0\<rparr>
     = decode_block_max ''#15hello'' \<lparr>sent = [], inbox = [], sock_timeout = 100, now = 0\<rparr>
   \<and> decode_block_normal (''xx'' @ ''#15hello'') \<lparr>sent = [], inbox = [], sock_timeout = 100, now = 0\<rparr>
     = decode_block_normal ''#15hello'' \<lparr>sent = [], inbox = [], sock_timeout = 100, now = 0\<rparr>
   \<and> decode_block_basic (''xx'' @ ''#15hello'') = decode_block_basic ''#15hello''
   \<and> decode_block_basic ''#15hello'' = Inr ''hello''"
proof -
  have h: "read_header ''#15hello'' (find_byte CHR ''#'' ''#15hello'') = Inr (1, 5)"
    by (simp add: parse_defs)
  have v: "decode_block_basic ''#15hello'' = Inr ''hello''"
    by (simp add: decode_block_basic_def parse_defs)
  show ?thesis
    using marker_prefix_skipped [of "''xx''" "''#15hello''"
        "\<lparr>sent = [], inbox = [], sock_timeout = 100, now = 0\<rparr>"] h v
    by simp
qed

subsection \<open>Reading an exact number of bytes\<close>

lemma recv_data:
  "inbox w = Data c # es \<Longrightarrow> c \<noteq> [] \<Longrightarrow>
   recv m w = (Inr (take m c), w\<lparr>inbox := (if length c \<le> m then es else Data (drop m c) # es)\<rparr>)"
  by (simp add: recv_def)

lemma recv_silent:
  "inbox w = [] \<or> (\<exists>es. inbox w = Quiet # es) \<Longrightarrow> fst (recv m w) = Inl SocketTimeout"
  by (auto simp: recv_def)

lemma recv_closed:
  "inbox w = Data [] # es \<Longrightarrow> recv m w = (Inr [], w)"
  by (simp add: recv_def)

lemma take_split_chunk:
  "k \<le> n \<Longrightarrow> take k xs @ take (n - k) (drop k xs) = take n xs"
  by (metis le_add_diff_inverse take_add)

lemma receive_waveform_loop_spec:
  assumes "\<forall>c \<in> set chunks. c \<noteq> []"
    and "inbox w = map Data chunks @ es"
    and "nat n \<le> length received + length (concat chunks)
      \<or> es = [] \<or> hd es = Quiet \<or> hd es = Data []"
    and "0 < buffer_size"
  shows "fst (receive_waveform_loop n buffer_size received w) =
     (if nat n \<le> length received + length (concat chunks)
      then Inr (received @ take (nat n - length received) (concat chunks))
      else if es = [] \<or> hd es = Quiet then Inl SocketTimeout
      else Inl ConnectionError)"
  using assms
proof (induction n buffer_size received w arbitrary: chunks rule: receive_waveform_loop.induct)
  case (1 n bs received w)
  note simps = receive_waveform_loop.simps [of n bs received w]
  show ?case
  proof (cases "int (length received) < n")
    case False
    then have "nat n - length received = 0" "nat n \<le> length received + length (concat chunks)"
      by auto
    with False show ?thesis by (simp add: simps)
  next
    case True
    let ?m = "min bs (nat (n - int (length received)))"
    have m0: "0 < ?m" and mr: "?m \<le> nat n - length received"
      using True "1.prems"(4) by auto
    show ?thesis
    proof (cases chunks)
      case Nil
      then have nle: "\<not> nat n \<le> length received + length (concat chunks)"
        using True by simp
      have ib: "inbox w = es" using Nil "1.prems"(2) by simp
      show ?thesis
      proof (cases "es = [] \<or> hd es = Quiet")
        case q: True
        then have "inbox w = [] \<or> (\<exists>es'. inbox w = Quiet # es')"
          using ib by (cases es) auto
        then have "fst (recv ?m w) = Inl SocketTimeout" by (rule recv_silent)
        then show ?thesis using True nle q
          by (auto simp: simps split: prod.splits sum.splits)
      next
        case q: False
        with "1.prems"(3) nle obtain es' where "es = Data [] # es'" by (cases es) auto
        then have "recv ?m w = (Inr [], w)" using ib recv_closed by simp
        then show ?thesis using True nle q
          by (simp add: simps)
      qed
    next
      case (Cons c cs)
      then have c: "c \<noteq> []" and ib: "inbox w = Data c # (map Data cs @ es)"
        using "1.prems"(1,2) by auto
      let ?chunk = "take ?m c"
      let ?es' = "if length c \<le> ?m then map Data cs @ es else Data (drop ?m c) # (map Data cs @ es)"
      let ?w' = "w\<lparr>inbox := ?es'\<rparr>"
      let ?chunks' = "if length c \<le> ?m then cs else drop ?m c # cs"
      have r: "recv ?m w = (Inr ?chunk, ?w')" using ib c by (rule recv_data)
      have ne: "?chunk \<noteq> []" using c m0 by (cases c) auto
      have p1: "\<forall>c \<in> set ?chunks'. c \<noteq> []" using "1.prems"(1) Cons by auto
      have p2: "inbox ?w' = map Data ?chunks' @ es" by simp
      define k where "k = length ?chunk"
      have cc: "concat ?chunks' = drop k (concat chunks)"
        using Cons by (auto simp: min_def k_def)
      have ck: "?chunk = take k (concat chunks)"
        using Cons by (auto simp: min_def k_def)
      have lk: "k \<le> nat n - length received" using mr by (simp add: k_def)
      have lc: "k \<le> length (concat chunks)" using Cons by (simp add: k_def)
      have l1: "length (received @ ?chunk) = length received + k" by (simp add: k_def)
      have len: "length (received @ ?chunk) + length (concat ?chunks')
          = length received + length (concat chunks)"
        unfolding cc l1 using lc by simp
      have p3: "nat n \<le> length (received @ ?chunk) + length (concat ?chunks')
          \<or> es = [] \<or> hd es = Quiet \<or> hd es = Data []"
        using "1.prems"(3) unfolding len .
      have IH: "fst (receive_waveform_loop n bs (received @ ?chunk) ?w') =
         (if nat n \<le> length (received @ ?chunk) + length (concat ?chunks')
          then Inr ((received @ ?chunk) @ take (nat n - length (received @ ?chunk)) (concat ?chunks'))
          else if es = [] \<or> hd es = Quiet then Inl SocketTimeout
          else Inl ConnectionError)"
        using "1.IH" [OF True r [symmetric] refl ne p1 p2 p3 "1.prems"(4)] .
      have val: "(received @ ?chunk) @ take (nat n - length (received @ ?chunk)) (concat ?chunks')
          = received @ take (nat n - length received) (concat chunks)"
      proof -
        have "(received @ ?chunk) @ take (nat n - length (received @ ?chunk)) (concat ?chunks')
            = received @ (take k (concat chunks)
                @ take (nat n - (length received + k)) (drop k (concat chunks)))"
          unfolding l1 cc using ck by simp
        also have "nat n - (length received + k) = nat n - length received - k" by simp
        also have "take k (concat chunks) @ take (nat n - length received - k) (drop k (concat chunks))
            = take (nat n - length received) (concat chunks)"
          using lk by (rule take_split_chunk)
        finally show ?thesis .
      qed
      have eq: "receive_waveform_loop n bs received w
          = receive_waveform_loop n bs (received @ ?chunk) ?w'"
        unfolding simps r using True ne by (simp only: if_True if_False prod.case sum.case)
      show ?thesis by (simp only: eq IH len val)
    qed
  qed
qed


lemma chunk_nonempty: "c \<noteq> [] \<Longrightarrow> 0 < m \<Longrightarrow> take m c \<noteq> []"
  by (cases c) auto

lemma chunk_rest_length:
  "length (take m c) + length (concat (if length c \<le> m then cs else drop m c # cs))
     = length (concat (c # cs))"
  by (auto simp: min_def)

lemma chunk_rest_take:
  assumes "m \<le> N"
  shows "take m c @ take (N - length (take m c)) (concat (if length c \<le> m then cs else drop m c # cs))
     = take N (concat (c # cs))"
proof (cases "length c \<le> m")
  case True
  then show ?thesis using assms by simp
next
  case False
  then have "N - m = N - length c + (length c - m) \<or> N \<le> length c" by arith
  with False assms show ?thesis
    by (auto simp: min_def take_add [symmetric])
qed

lemma read_rest_normal_enough:
  assumes "\<forall>c \<in> set chunks. c \<noteq> []"
    and "inbox w = map Data chunks @ es"
    and "nat n \<le> length received + length (concat chunks)"
  shows "\<exists>w'. read_rest_normal n received w
      = Some (Inr (received @ take (nat n - length received) (concat chunks)), w')"
  using assms
proof (induction "nat n - length received" arbitrary: received w chunks rule: less_induct)
  case less
  note simps = read_rest_normal.simps [of n received w]
  show ?case
  proof (cases "int (length received) < n")
    case False
    then have "nat n - length received = 0" by simp
    with False show ?thesis by (simp add: simps)
  next
    case True
    let ?N = "nat n - length received"
    let ?m = "nat (n - int (length received))"
    have N: "?m = ?N" "0 < ?m" using True by auto
    from True less.prems(3) have "0 < length (concat chunks)" by arith
    then obtain c cs where Cons: "chunks = c # cs" by (cases chunks) auto
    then have c: "c \<noteq> []" and ib: "inbox w = Data c # (map Data cs @ es)"
      using less.prems(1,2) by auto
    let ?chunk = "take ?m c"
    let ?chunks' = "if length c \<le> ?m then cs else drop ?m c # cs"
    let ?w' = "w\<lparr>inbox := if length c \<le> ?m then map Data cs @ es
                            else Data (drop ?m c) # (map Data cs @ es)\<rparr>"
    have r: "recv ?m w = (Inr ?chunk, ?w')" using ib c by (rule recv_data)
    have st1: "?chunk \<noteq> []" using c N(2) by (rule chunk_nonempty)
    have st2: "length ?chunk + length (concat ?chunks') = length (concat (c # cs))"
      by (rule chunk_rest_length)
    have st3: "?chunk @ take (?m - length ?chunk) (concat ?chunks') = take ?m (concat (c # cs))"
      by (rule chunk_rest_take) simp
    have p1: "\<forall>c \<in> set ?chunks'. c \<noteq> []" using less.prems(1) Cons by auto
    have p2: "inbox ?w' = map Data ?chunks' @ es" by simp
    have p3: "nat n \<le> length (received @ ?chunk) + length (concat ?chunks')"
      using less.prems(3) st2 Cons by (simp only: length_append) arith?
    have dec: "nat n - length (received @ ?chunk) < nat n - length received"
      using st1 True by (cases ?chunk) auto
    obtain w'' where IH: "read_rest_normal n (received @ ?chunk) ?w'
        = Some (Inr ((received @ ?chunk) @ take (nat n - length (received @ ?chunk)) (concat ?chunks')), w'')"
      using less.hyps [OF dec p1 p2 p3] by blast
    have val: "(received @ ?chunk) @ take (nat n - length (received @ ?chunk)) (concat ?chunks')
        = received @ take (nat n - length received) (concat chunks)"
    proof -
      have "nat n - length (received @ ?chunk) = nat (n - int (length received)) - length ?chunk"
        using True by (simp only: length_append) arith?
      then show ?thesis using st3 Cons by (simp only: append_assoc N(1))
    qed
    have eq: "read_rest_normal n received w = read_rest_normal n (received @ ?chunk) ?w'"
      unfolding simps r using True by (simp only: if_True prod.case sum.case)
    show ?thesis unfolding eq IH val by blast
  qed
qed


lemma receive_waveform_data_enough:
  assumes "\<forall>c \<in> set chunks. c \<noteq> []"
    and "inbox w = map Data chunks @ es"
    and "nat n \<le> length (concat chunks)"
  shows "fst (receive_waveform_data n 4096 w) = Inr (take (nat n) (concat chunks))"
  using receive_waveform_loop_spec [OF assms(1,2), of n "[]" 4096] assms(3)
  by (simp add: receive_waveform_data_def)

subsection \<open>Well-formed headers\<close>

lemma digits_loop_digits:
  "list_all is_digit cs \<Longrightarrow> digits_loop a cs = Some (foldl (\<lambda>a c. 10 * a + digit_val c) a cs)"
  by (induction a cs rule: digits_loop.induct) auto

lemma digit_plain:
  "is_digit c \<Longrightarrow> \<not> is_int_space c \<and> c \<noteq> CHR ''-'' \<and> c \<noteq> CHR ''+'' \<and> (of_char c :: nat) < 128"
  by (auto simp: is_digit_def is_int_space_def)

lemma int_strip_plain: "\<forall>c \<in> set s. \<not> is_int_space c \<Longrightarrow> int_strip s = s"
proof -
  assume a: "\<forall>c \<in> set s. \<not> is_int_space c"
  then have "dropWhile is_int_space s = s" by (cases s) auto
  moreover from a have "dropWhile is_int_space (rev s) = rev s" by (cases "rev s") auto
  ultimately show ?thesis by (simp add: int_strip_def)
qed

lemma int_of_bytes_digits:
  assumes "ds \<noteq> []" and "list_all is_digit ds"
  shows "int_of_bytes ds = Inr (int (dec_val ds))"
proof -
  obtain c cs where ds: "ds = c # cs" using assms(1) by (cases ds) auto
  have pl: "\<forall>c \<in> set ds. \<not> is_int_space c \<and> c \<noteq> CHR ''-'' \<and> c \<noteq> CHR ''+'' \<and> (of_char c :: nat) < 128"
    using assms(2) digit_plain by (auto simp: list_all_iff)
  then have d: "decode ds = Inr ds" by (auto simp: decode_def list_all_iff)
  have s: "int_strip ds = ds" using pl by (intro int_strip_plain) blast
  have h: "hd ds \<noteq> CHR ''-''" "hd ds \<noteq> CHR ''+''" using pl ds by auto
  have "py_digits ds = Some (dec_val ds)"
    using assms(2) ds digits_loop_digits [of cs "digit_val c"]
    by (simp add: py_digits_def dec_val_def)
  then show ?thesis using d s h assms(1)
    by (simp add: int_of_bytes_def py_int_def)
qed

lemma int_of_bytes_digit:
  "is_digit d \<Longrightarrow> int_of_bytes [d] = Inr (int (digit_val d))"
  using int_of_bytes_digits [of "[d]"] by (simp add: dec_val_def)

lemma read_header_valid:
  assumes "ds \<noteq> []" "list_all is_digit ds" "is_digit d" "digit_val d = length ds"
  shows "read_header (CHR ''#'' # d # ds @ part) 0 = Inr (int (length ds), int (dec_val ds))"
proof -
  have a: "slice (CHR ''#'' # d # ds @ part) (0 + 1) (0 + 2) = [d]"
    by (simp add: slice_nonneg)
  have b: "slice (CHR ''#'' # d # ds @ part) (0 + 2) (0 + 2 + int (length ds)) = ds"
    by (simp add: slice_nonneg nat_add_distrib)
  have c: "int_of_bytes [d] = Inr (int (length ds))"
    using int_of_bytes_digit [OF assms(3)] assms(4) by simp
  have e: "int_of_bytes ds = Inr (int (dec_val ds))"
    using assms(1,2) by (rule int_of_bytes_digits)
  show ?thesis
    unfolding read_header_def a c by (simp only: sum.case b e)
qed


subsection \<open>The exact read, as a whole\<close>

lemma inbox_split:
  "\<exists>chunks es. evs = map Data chunks @ es \<and> (\<forall>c \<in> set chunks. c \<noteq> [])
     \<and> (es = [] \<or> hd es = Quiet \<or> hd es = Data [])"
proof (induction evs)
  case Nil
  then show ?case by simp
next
  case (Cons e evs)
  then obtain chunks es where s: "evs = map Data chunks @ es" "\<forall>c \<in> set chunks. c \<noteq> []"
      "es = [] \<or> hd es = Quiet \<or> hd es = Data []"
    by blast
  show ?case
  proof (cases "\<exists>c. e = Data c \<and> c \<noteq> []")
    case True
    then obtain c where "e = Data c" "c \<noteq> []" by blast
    with s have "e # evs = map Data (c # chunks) @ es \<and> (\<forall>c \<in> set (c # chunks). c \<noteq> [])"
      by simp
    with s(3) show ?thesis by blast
  next
    case False
    then have "hd (e # evs) = Quiet \<or> hd (e # evs) = Data []" by (cases e) auto
    then have "e # evs = map Data [] @ (e # evs) \<and> (\<forall>c \<in> set ([] :: bytes list). c \<noteq> [])
        \<and> (hd (e # evs) = Quiet \<or> hd (e # evs) = Data [])"
      by simp
    then show ?thesis by blast
  qed
qed

text \<open>
  C6: \<^verbatim>\<open>receive_waveform_data\<close> returns exactly the requested number of bytes or raises.
  Let the inbox start with the non-empty runs \<open>chunks\<close>, followed by \<open>es\<close> that is
  empty or starts with a silence or with the peer closing (every inbox splits this way,
  \<open>inbox_split\<close>). If the runs hold \<open>n\<close> bytes, the result is their first \<open>n\<close> bytes,
  however they are split into runs; if they hold fewer, the result is \<^verbatim>\<open>socket.timeout\<close>
  when a silence follows and \<^verbatim>\<open>ConnectionError\<close> when the peer closed. A result that is
  returned has length \<open>n\<close>.
\<close>

theorem receive_waveform_data_exact:
  assumes "0 \<le> n" and "0 < buffer_size"
    and "\<forall>c \<in> set chunks. c \<noteq> []"
    and "inbox w = map Data chunks @ es"
    and "es = [] \<or> hd es = Quiet \<or> hd es = Data []"
  shows "fst (receive_waveform_data n buffer_size w) =
       (if nat n \<le> length (concat chunks) then Inr (take (nat n) (concat chunks))
        else if es = [] \<or> hd es = Quiet then Inl SocketTimeout
        else Inl ConnectionError)
     \<and> (\<forall>received. fst (receive_waveform_data n buffer_size w) = Inr received
          \<longrightarrow> int (length received) = n)"
proof -
  have spec: "fst (receive_waveform_data n buffer_size w) =
       (if nat n \<le> length (concat chunks) then Inr (take (nat n) (concat chunks))
        else if es = [] \<or> hd es = Quiet then Inl SocketTimeout
        else Inl ConnectionError)"
    using receive_waveform_loop_spec [OF assms(3,4) _ assms(2), of n "[]"] assms(5)
    by (simp add: receive_waveform_data_def)
  moreover have "int (length received) = n"
    if "fst (receive_waveform_data n buffer_size w) = Inr received" for received
    using that assms(1) unfolding spec by (auto split: if_splits)
  ultimately show ?thesis by blast
qed

text \<open>Evaluation rules for the socket on closed worlds.\<close>

lemmas io_defs = receive_waveform_data_def recv_def send_command_def sleep_def receive_data_max_def

theorem receive_waveform_data_exact_witness:
  "fst (receive_waveform_data 5 4096
      \<lparr>sent = [], inbox = [Data ''he'', Data ''llo!'', Quiet], sock_timeout = 100, now = 0\<rparr>)
     = Inr ''hello''
   \<and> fst (receive_waveform_data 5 4096
      \<lparr>sent = [], inbox = [Data ''he'', Quiet, Data ''llo''], sock_timeout = 100, now = 0\<rparr>)
     = Inl SocketTimeout
   \<and> fst (receive_waveform_data 5 4096
      \<lparr>sent = [], inbox = [Data ''he'', Data []], sock_timeout = 100, now = 0\<rparr>)
     = Inl ConnectionError"
proof -
  have n: "(0::int) \<le> 5" and b: "(0::nat) < 4096" by simp_all
  have c1: "\<forall>c \<in> set [''he'', ''llo!'']. c \<noteq> []" and c2: "\<forall>c \<in> set [''he'']. c \<noteq> []"
    by simp_all
  have "fst (receive_waveform_data 5 4096
      \<lparr>sent = [], inbox = [Data ''he'', Data ''llo!'', Quiet], sock_timeout = 100, now = 0\<rparr>)
     = Inr ''hello''"
    using receive_waveform_data_exact [OF n b c1, of _ "[Quiet]"] by simp
  moreover have "fst (receive_waveform_data 5 4096
      \<lparr>sent = [], inbox = [Data ''he'', Quiet, Data ''llo''], sock_timeout = 100, now = 0\<rparr>)
     = Inl SocketTimeout"
    using receive_waveform_data_exact [OF n b c2, of _ "[Quiet, Data ''llo'']"] by simp
  moreover have "fst (receive_waveform_data 5 4096
      \<lparr>sent = [], inbox = [Data ''he'', Data []], sock_timeout = 100, now = 0\<rparr>)
     = Inl ConnectionError"
    using receive_waveform_data_exact [OF n b c2, of _ "[Data []]"] by simp
  ultimately show ?thesis by blast
qed

subsection \<open>Valid blocks\<close>

lemma take_payload:
  assumes "part @ rest = payload @ extra" and "L = length payload"
  shows "take L (part @ take (L - length part) rest) = payload"
proof -
  have "take L (part @ take (L - length part) rest) = take L (part @ rest)"
    by (simp add: min_def)
  then show ?thesis using assms by simp
qed

lemma decode_block_max_valid:
  assumes "CHR ''#'' \<notin> set pre"
    and "ds \<noteq> []" and "list_all is_digit ds"
    and "is_digit d" and "digit_val d = length ds"
    and "dec_val ds = length payload"
    and "part @ concat chunks = payload @ extra"
    and "\<forall>c \<in> set chunks. c \<noteq> []"
    and "inbox w = map Data chunks @ es"
  shows "fst (decode_block_max (pre @ CHR ''#'' # d # ds @ part) w) = Inr payload"
proof -
  let ?data = "CHR ''#'' # d # ds @ part"
  let ?L = "length payload"
  have sh: "decode_block_max (pre @ ?data) w = decode_block_max ?data w"
    using assms(1) by (intro decode_block_max_shift) simp_all
  have f: "find_byte CHR ''#'' ?data = 0" by (simp add: find_byte_def)
  have h: "read_header ?data 0 = Inr (int (length ds), int ?L)"
    using read_header_valid [OF assms(2-5)] assms(6) by simp
  have wd: "slice_from ?data (2 + int (length ds)) = part"
    by (simp add: slice_from_nonneg nat_add_distrib)
  have len: "length part \<le> ?L \<Longrightarrow> ?L - length part \<le> length (concat chunks)"
    using arg_cong [OF assms(7), of length] by simp
  show ?thesis
  proof (cases "length part < ?L")
    case True
    then have n: "nat (int ?L - int (length part)) = ?L - length part" by simp
    have "nat (int ?L - int (length part)) \<le> length (concat chunks)"
      using len True by simp
    then have "fst (receive_waveform_data (int ?L - int (length part)) 4096 w)
        = Inr (take (?L - length part) (concat chunks))"
      using receive_waveform_data_enough [OF assms(8,9)] n by simp
    then obtain w' where r: "receive_waveform_data (int ?L - int (length part)) 4096 w
        = (Inr (take (?L - length part) (concat chunks)), w')"
      by (cases "receive_waveform_data (int ?L - int (length part)) 4096 w") auto
    have "decode_block_max ?data w
        = (Inr (slice_to (part @ take (?L - length part) (concat chunks)) (int ?L)), w')"
      unfolding decode_block_max_def f Let_def h using True r by (simp add: wd)
    then show ?thesis unfolding sh
      using take_payload [OF assms(7) refl] by (simp add: slice_to_nonneg)
  next
    case False
    then have "take ?L (part @ concat chunks) = take ?L part" by simp
    then have "take ?L part = payload" unfolding assms(7) by simp
    moreover have "decode_block_max ?data w = (Inr (slice_to part (int ?L)), w)"
      unfolding decode_block_max_def f Let_def h using False by (simp add: wd)
    ultimately show ?thesis unfolding sh by (simp add: slice_to_nonneg)
  qed
qed

lemma decode_block_normal_valid:
  assumes "CHR ''#'' \<notin> set pre"
    and "ds \<noteq> []" and "list_all is_digit ds"
    and "is_digit d" and "digit_val d = length ds"
    and "dec_val ds = length payload"
    and "part @ concat chunks = payload @ extra"
    and "\<forall>c \<in> set chunks. c \<noteq> []"
    and "inbox w = map Data chunks @ es"
  shows "\<exists>w'. decode_block_normal (pre @ CHR ''#'' # d # ds @ part) w = Some (Inr payload, w')"
proof -
  let ?data = "CHR ''#'' # d # ds @ part"
  let ?L = "length payload"
  have sh: "decode_block_normal (pre @ ?data) w = decode_block_normal ?data w"
    using assms(1) by (intro decode_block_normal_shift) simp_all
  have f: "find_byte CHR ''#'' ?data = 0" by (simp add: find_byte_def)
  have h: "read_header ?data 0 = Inr (int (length ds), int ?L)"
    using read_header_valid [OF assms(2-5)] assms(6) by simp
  have wd: "slice_from ?data (2 + int (length ds)) = part"
    by (simp add: slice_from_nonneg nat_add_distrib)
  have "?L \<le> length part + length (concat chunks)"
    using arg_cong [OF assms(7), of length] by simp
  then obtain w' where r: "read_rest_normal (int ?L) part w
      = Some (Inr (part @ take (?L - length part) (concat chunks)), w')"
    using read_rest_normal_enough [OF assms(8,9), of "int ?L" part] by auto
  have "decode_block_normal ?data w
      = Some (Inr (slice_to (part @ take (?L - length part) (concat chunks)) (int ?L)), w')"
    unfolding decode_block_normal_def f Let_def h using r by (simp add: wd)
  then show ?thesis unfolding sh
    using take_payload [OF assms(7) refl] by (simp add: slice_to_nonneg)
qed

text \<open>
  C1, as stated, fails: no script reads on when the first buffer ends inside the header.
  The valid block \<^verbatim>\<open>#15hello\<close>, delivered as \<^verbatim>\<open>#1\<close> and then \<^verbatim>\<open>5hello\<close>, makes the
  max-mode \<^verbatim>\<open>get_waveform_data\<close> read its length field from the empty string, and
  \<^verbatim>\<open>int('')\<close> raises.
\<close>

theorem header_split_across_reads:
  "concat [''#1'', ''5hello''] = ''#15hello''
   \<and> fst (get_waveform_data_max 3
        \<lparr>sent = [], inbox = [Data ''#1'', Data ''5hello''], sock_timeout = 20000, now = 0\<rparr>)
      = Inl InvalidLiteral"
  by (simp add: get_waveform_data_max_def numeral_3_eq_3 io_defs receive_data_loop.simps
      decode_block_max_def parse_defs)

text \<open>
  C1, amended: let the first buffer hold the whole header of a valid block (the marker
  after bytes that hold no marker, the digit \<open>d\<close>, the \<open>d\<close> decimal digits \<open>ds\<close> of the
  payload length) and the first part of what follows the header; let the rest arrive
  from the socket in non-empty runs \<open>chunks\<close>, cut anywhere. Then the max-mode and the
  normal-mode decoders return exactly the payload, and whatever follows it is dropped.
\<close>

theorem valid_block_payload:
  assumes "CHR ''#'' \<notin> set pre"
    and "ds \<noteq> []" and "list_all is_digit ds"
    and "is_digit d" and "digit_val d = length ds"
    and "dec_val ds = length payload"
    and "part @ concat chunks = payload @ extra"
    and "\<forall>c \<in> set chunks. c \<noteq> []"
    and "inbox w = map Data chunks @ es"
  shows "fst (decode_block_max (pre @ CHR ''#'' # d # ds @ part) w) = Inr payload
    \<and> (\<exists>w'. decode_block_normal (pre @ CHR ''#'' # d # ds @ part) w = Some (Inr payload, w'))"
  using decode_block_max_valid [OF assms] decode_block_normal_valid [OF assms] by blast

theorem valid_block_payload_witness:
  "fst (decode_block_max ''xx#15he''
      \<lparr>sent = [], inbox = [Data ''l'', Data ''lo!'', Quiet], sock_timeout = 100, now = 0\<rparr>)
     = Inr ''hello''
   \<and> (\<exists>w'. decode_block_normal ''xx#15he''
      \<lparr>sent = [], inbox = [Data ''l'', Data ''lo!'', Quiet], sock_timeout = 100, now = 0\<rparr>
     = Some (Inr ''hello'', w'))"
  using valid_block_payload [of "''xx''" "''5''" "CHR ''1''" "''hello''" "''he''" "[''l'', ''lo!'']"
      "''!''" "\<lparr>sent = [], inbox = [Data ''l'', Data ''lo!'', Quiet], sock_timeout = 100, now = 0\<rparr>"
      "[Quiet]"]
  by (simp add: is_digit_def digit_val_def dec_val_def)

text \<open>
  The basic script is not covered by the amended statement. It calls \<^verbatim>\<open>recv\<close> once and
  slices, where the other two scripts read on (\<^verbatim>\<open>rigolDAQ_max_mode.py\<close> 85 and 86,
  \<^verbatim>\<open>rigolDAQ_normal_mode.py\<close> 76 and 77): when the first buffer ends inside the payload,
  it returns the bytes it has as if they were the block. For the block \<^verbatim>\<open>#15hello\<close> cut
  after \<^verbatim>\<open>#15he\<close> it returns two bytes where five were declared.
\<close>

lemma basic_returns_short_payload: "decode_block_basic ''#15he'' = Inr ''he''"
  by (simp add: decode_block_basic_def parse_defs)

subsection \<open>Malformed and missing headers\<close>

lemma int_of_bytes_empty: "int_of_bytes [] = Inl InvalidLiteral"
  by (simp add: parse_defs)

lemma int_of_bytes_single:
  "int_of_bytes [c] = Inr v \<Longrightarrow> is_digit c \<and> v = int (digit_val c)"
  by (auto simp: int_of_bytes_def decode_def py_int_def int_strip_def py_digits_def Let_def
      split: if_splits option.splits)

lemma int_of_bytes_error:
  "int_of_bytes bs = Inl e \<Longrightarrow> e = InvalidLiteral \<or> e = UnicodeDecodeError"
  by (auto simp: int_of_bytes_def decode_def py_int_def Let_def split: if_splits option.splits)

lemma digit_val_zero: "digit_val CHR ''0'' = 0"
  by (simp add: digit_val_def)

lemma read_header_malformed:
  assumes "rest = [] \<or> hd rest = CHR ''0'' \<or> \<not> is_digit (hd rest)"
  shows "\<exists>e. (e = InvalidLiteral \<or> e = UnicodeDecodeError)
     \<and> read_header (CHR ''#'' # rest) 0 = Inl e"
proof (cases rest)
  case Nil
  then have "slice (CHR ''#'' # rest) (0 + 1) (0 + 2) = []" by (simp add: slice_nonneg)
  then show ?thesis by (simp add: read_header_def int_of_bytes_empty)
next
  case (Cons c cs)
  then have d: "slice (CHR ''#'' # rest) (0 + 1) (0 + 2) = [c]" by (simp add: slice_nonneg)
  show ?thesis
  proof (cases "int_of_bytes [c]")
    case (Inl e)
    then show ?thesis
      unfolding read_header_def d using int_of_bytes_error [OF Inl] by simp
  next
    case (Inr v)
    then have "is_digit c" "v = int (digit_val c)" using int_of_bytes_single by blast+
    with assms Cons have v: "v = 0" by (simp add: digit_val_zero)
    have "slice (CHR ''#'' # rest) (0 + 2) (0 + 2 + 0) = []" by (simp add: slice_nonneg)
    then show ?thesis
      unfolding read_header_def d using Inr v by (simp add: int_of_bytes_empty)
  qed
qed

text \<open>
  C5: when the byte after the marker is missing, is \<^verbatim>\<open>0\<close> or is no ASCII digit, every
  decoder raises the exception of \<^verbatim>\<open>int()\<close> or of \<^verbatim>\<open>decode()\<close> (both are
  \<^verbatim>\<open>ValueError\<close>s in Python), and the world is as it was: nothing was read.
\<close>

theorem malformed_length_digit_rejected:
  assumes "CHR ''#'' \<notin> set pre"
    and "rest = [] \<or> hd rest = CHR ''0'' \<or> \<not> is_digit (hd rest)"
  shows "\<exists>e. (e = InvalidLiteral \<or> e = UnicodeDecodeError)
     \<and> decode_block_basic (pre @ CHR ''#'' # rest) = Inl e
     \<and> decode_block_max (pre @ CHR ''#'' # rest) w = (Inl e, w)
     \<and> decode_block_normal (pre @ CHR ''#'' # rest) w = Some (Inl e, w)"
proof -
  let ?data = "CHR ''#'' # rest"
  obtain e where e: "e = InvalidLiteral \<or> e = UnicodeDecodeError"
      and h: "read_header ?data 0 = Inl e"
    using read_header_malformed [OF assms(2)] by blast
  have f: "find_byte CHR ''#'' ?data = 0" by (simp add: find_byte_def)
  have m: "CHR ''#'' \<in> set ?data" by simp
  have "decode_block_basic (pre @ ?data) = decode_block_basic ?data"
    using assms(1) m by (rule decode_block_basic_shift) (simp add: f h)
  then have "decode_block_basic (pre @ ?data) = Inl e"
    by (simp add: decode_block_basic_def f h)
  moreover have "decode_block_max (pre @ ?data) w = (Inl e, w)"
    unfolding decode_block_max_shift [OF assms(1) m]
    by (simp add: decode_block_max_def f h)
  moreover have "decode_block_normal (pre @ ?data) w = Some (Inl e, w)"
    unfolding decode_block_normal_shift [OF assms(1) m]
    by (simp add: decode_block_normal_def f h)
  ultimately show ?thesis using e by blast
qed

theorem malformed_length_digit_rejected_witness:
  "\<exists>e. (e = InvalidLiteral \<or> e = UnicodeDecodeError)
     \<and> decode_block_basic ''xx#0123'' = Inl e
     \<and> decode_block_max ''xx#0123''
          \<lparr>sent = [], inbox = [Data ''abc''], sock_timeout = 100, now = 0\<rparr>
        = (Inl e, \<lparr>sent = [], inbox = [Data ''abc''], sock_timeout = 100, now = 0\<rparr>)
     \<and> decode_block_normal ''xx#0123''
          \<lparr>sent = [], inbox = [Data ''abc''], sock_timeout = 100, now = 0\<rparr>
        = Some (Inl e, \<lparr>sent = [], inbox = [Data ''abc''], sock_timeout = 100, now = 0\<rparr>)"
  using malformed_length_digit_rejected [of "''xx''" "''0123''"
      "\<lparr>sent = [], inbox = [Data ''abc''], sock_timeout = 100, now = 0\<rparr>"]
  by simp

text \<open>
  A buffer without the marker: the basic script raises at once, the max-mode script asks
  again and hands a buffer to the decoder only if it holds the marker.
\<close>

lemma decode_block_basic_no_marker:
  "CHR ''#'' \<notin> set data \<Longrightarrow> decode_block_basic data = Inl NoHeader"
  by (simp add: decode_block_basic_def find_byte_absent)

lemma fetch_header_max_result:
  "fetch_header_max attempts w = (r, w') \<Longrightarrow>
     (case r of Inl e \<Rightarrow> e = NoHeader | Inr data \<Rightarrow> CHR ''#'' \<in> set data)"
proof (induction attempts arbitrary: w)
  case 0
  then show ?case by auto
next
  case (Suc attempts)
  obtain data w1 where d: "receive_data_max 4096 (send_command ''WAVeform:DATA?'' w) = (data, w1)"
    by (cases "receive_data_max 4096 (send_command ''WAVeform:DATA?'' w)")
  show ?case
  proof (cases "CHR ''#'' \<in> set data")
    case True
    then have "find_byte CHR ''#'' data \<noteq> - 1" using find_byte_present [OF True] by simp
    with Suc.prems d True show ?thesis by auto
  next
    case False
    then have "find_byte CHR ''#'' data = - 1" by (rule find_byte_absent)
    with Suc.prems d have "fetch_header_max attempts (sleep 100 w1) = (r, w')" by simp
    then show ?thesis by (rule Suc.IH)
  qed
qed

text \<open>
  C4 fails for the normal-mode script: \<^verbatim>\<open>get_waveform\<close> does not test the result of
  \<^verbatim>\<open>find\<close>, so with \<open>start = -1\<close> the buffer's first byte is read as the digit and the
  next bytes as the length. The buffer \<^verbatim>\<open>15hello\<close> holds no marker and is decoded to the
  payload \<^verbatim>\<open>hello\<close>; a stale reply \<^verbatim>\<open>1000\<close> with its newline is decoded to an empty
  payload.
\<close>

theorem normal_decodes_without_marker:
  "CHR ''#'' \<notin> set ''15hello''
   \<and> get_waveform_normal 3
        \<lparr>sent = [], inbox = [Data ''15hello''], sock_timeout = 1000, now = 0\<rparr>
      = Some (Inr ''hello'',
          \<lparr>sent = [''WAVeform:SOURce CHAN3'' @ [CHR 0x0A], ''WAVeform:DATA?'' @ [CHR 0x0A]],
           inbox = [], sock_timeout = 1000, now = 0\<rparr>)
   \<and> get_waveform_normal 3
        \<lparr>sent = [], inbox = [Data (''1000'' @ [CHR 0x0A])], sock_timeout = 1000, now = 0\<rparr>
      = Some (Inr [],
          \<lparr>sent = [''WAVeform:SOURce CHAN3'' @ [CHR 0x0A], ''WAVeform:DATA?'' @ [CHR 0x0A]],
           inbox = [], sock_timeout = 1000, now = 0\<rparr>)"
  by (simp add: get_waveform_normal_def io_defs decode_block_normal_def parse_defs str_nat.simps
      read_rest_normal.simps)

subsection \<open>The trigger wait\<close>

text \<open>Evaluation rules for the status query on closed worlds.\<close>

lemmas status_defs =
  get_trigger_status_basic_def get_trigger_status_max_def recv_blocking_def decode_def strip_def
  is_space_def wait_for_trigger_normal_def




text \<open>
  The waits of the other two scripts are total functions: they return for every world,
  with the trigger seen or with an exception.
\<close>

lemma wait_loop_normal_result:
  "fst (wait_loop_normal timeout start w)
     \<in> {Inr (), Inl TimeoutError, Inl SocketTimeout, Inl UnicodeDecodeError}"
proof (induction timeout start w rule: wait_loop_normal.induct)
  case (1 timeout start w)
  obtain r w' where r: "recv 4096 (send_command ''TRIGger:STATus?'' w) = (r, w')"
    by (cases "recv 4096 (send_command ''TRIGger:STATus?'' w)")
  show ?case
  proof (cases r)
    case (Inl e)
    with r have "e = SocketTimeout"
      by (auto simp: recv_def split: list.splits event.splits if_splits)
    with r Inl show ?thesis by (simp add: wait_loop_normal.simps [of timeout start w])
  next
    case (Inr data)
    show ?thesis
    proof (cases "decode data")
      case (Inl e)
      then have "e = UnicodeDecodeError" by (auto simp: decode_def split: if_splits)
      with r Inr Inl show ?thesis by (simp add: wait_loop_normal.simps [of timeout start w])
    next
      case inr: (Inr reply)
      show ?thesis
        using r Inr inr "1.IH" [OF r [symmetric] Inr inr]
        by (simp add: wait_loop_normal.simps [of timeout start w])
    qed
  qed
qed

lemma trigger_wait_max_result:
  "fst (trigger_wait_max trigger_start w) \<in> {Inr (), Inl TimeoutError, Inl UnicodeDecodeError}"
proof (induction trigger_start w rule: trigger_wait_max.induct)
  case (1 trigger_start w)
  obtain r w' where r: "get_trigger_status_max w = (r, w')"
    by (cases "get_trigger_status_max w")
  show ?case
  proof (cases r)
    case (Inl e)
    with r have "e = UnicodeDecodeError"
      by (auto simp: get_trigger_status_max_def decode_def split: prod.splits sum.splits if_splits)
    with r Inl show ?thesis by (simp add: trigger_wait_max.simps [of trigger_start w])
  next
    case (Inr status)
    show ?thesis
      using r Inr "1.IH" [OF r [symmetric] Inr]
      by (simp add: trigger_wait_max.simps [of trigger_start w])
  qed
qed




subsection \<open>Scalar queries and retries\<close>

lemma recv_sent: "sent (snd (recv n w)) = sent w"
  by (auto simp: recv_def split: list.splits event.splits)

lemma receive_data_loop_sent: "sent (snd (receive_data_loop n chunks w)) = sent w"
proof (induction n chunks w rule: receive_data_loop.induct)
  case (1 n chunks w)
  obtain r w' where r: "recv n w = (r, w')" by (cases "recv n w")
  then have s: "sent w' = sent w" using recv_sent [of n w] by simp
  show ?case
  proof (cases r)
    case (Inl e)
    with r s show ?thesis by (simp add: receive_data_loop.simps [of n chunks w])
  next
    case (Inr chunk)
    with r s "1.IH" [OF r [symmetric] Inr] show ?thesis
      by (simp add: receive_data_loop.simps [of n chunks w])
  qed
qed

lemma receive_data_max_sent: "sent (snd (receive_data_max n w)) = sent w"
  by (simp add: receive_data_max_def receive_data_loop_sent)

text \<open>
  The max-mode \<^verbatim>\<open>query_float\<close> sends the command once per attempt: \<open>retries\<close> times
  when it ends with \<^verbatim>\<open>RuntimeError\<close> (which carries the command), and as often as it
  took when it returns a value.
\<close>

lemma query_float_max_sends:
  "query_float_max py_float command retries w = (r, w') \<Longrightarrow>
     (case r of
        Inl e \<Rightarrow> e = RuntimeError command
          \<and> sent w' = sent w @ replicate retries (command @ [CHR 0x0A])
      | Inr v \<Rightarrow> \<exists>k. 1 \<le> k \<and> k \<le> retries
          \<and> sent w' = sent w @ replicate k (command @ [CHR 0x0A]))"
proof (induction retries arbitrary: w)
  case 0
  then show ?case by auto
next
  case (Suc retries)
  obtain data w1 where d: "receive_data_max 4096 (send_command command w) = (data, w1)"
    by (cases "receive_data_max 4096 (send_command command w)")
  have s1: "sent (sleep 10 w1) = sent w @ [command @ [CHR 0x0A]]" "sent w1 = sent w @ [command @ [CHR 0x0A]]"
    using receive_data_max_sent [of 4096 "send_command command w"] d
    by (simp_all add: sleep_def send_command_def)
  have again: ?case if "query_float_max py_float command retries (sleep 10 w1) = (r, w')"
  proof -
    note IH = Suc.IH [OF that]
    show ?thesis
    proof (cases r)
      case (Inl e)
      with IH s1 show ?thesis by (simp add: replicate_app_Cons_same)
    next
      case (Inr v)
      with IH obtain k where "1 \<le> k" "k \<le> retries"
          "sent w' = sent (sleep 10 w1) @ replicate k (command @ [CHR 0x0A])"
        by auto
      then have "1 \<le> Suc k \<and> Suc k \<le> Suc retries
          \<and> sent w' = sent w @ replicate (Suc k) (command @ [CHR 0x0A])"
        using s1 by (simp add: replicate_app_Cons_same)
      with Inr show ?thesis by (auto simp del: replicate_Suc)
    qed
  qed
  show ?case
  proof (cases "decode data")
    case (Inl e)
    with Suc.prems d have "query_float_max py_float command retries (sleep 10 w1) = (r, w')"
      by simp
    then show ?thesis by (rule again)
  next
    case (Inr reply)
    show ?thesis
    proof (cases "strip reply \<noteq> [] \<and> py_float (strip reply) \<noteq> None")
      case True
      then obtain v where "py_float (strip reply) = Some v" by auto
      with Suc.prems d Inr True have "r = Inr v" "w' = w1" by (simp_all add: Let_def)
      then have "1 \<le> (1::nat) \<and> 1 \<le> Suc retries
          \<and> sent w' = sent w @ replicate 1 (command @ [CHR 0x0A])"
        using s1 by simp
      with \<open>r = Inr v\<close> show ?thesis by (auto simp del: replicate_Suc)
    next
      case False
      with Suc.prems d Inr have "query_float_max py_float command retries (sleep 10 w1) = (r, w')"
        by (auto simp: Let_def split: if_splits option.splits)
      then show ?thesis by (rule again)
    qed
  qed
qed



subsection \<open>Stopping before the fetch\<close>

lemma halted_at_fetch_append:
  "halted_at_fetch h (xs @ ys) = Option.bind (halted_at_fetch h xs) (\<lambda>h'. halted_at_fetch h' ys)"
  by (induction xs arbitrary: h) auto

lemma halted_at_fetch_polls:
  "halted_at_fetch h (replicate k (''TRIGger:STATus?'' @ [CHR 0x0A])) = Some h"
  by (induction k) auto

lemma halted_at_fetch_queries:
  "halted_at_fetch True (replicate k (''WAVeform:DATA?'' @ [CHR 0x0A])) = Some True"
  by (induction k) auto

lemma halted_at_fetch_source:
  "halted_at_fetch h (((''WAVeform:SOURce CHAN'' @ ch) @ [CHR 0x0A]) # cmds) = halted_at_fetch h cmds"
  by simp

lemma receive_waveform_loop_sent:
  "sent (snd (receive_waveform_loop n bs received w)) = sent w"
proof (induction n bs received w rule: receive_waveform_loop.induct)
  case (1 n bs received w)
  let ?m = "min bs (nat (n - int (length received)))"
  obtain r w' where r: "recv ?m w = (r, w')" by (cases "recv ?m w")
  then have s: "sent w' = sent w" using recv_sent [of ?m w] by simp
  show ?case
  proof (cases "int (length received) < n")
    case False
    then show ?thesis by (simp add: receive_waveform_loop.simps [of n bs received w])
  next
    case True
    show ?thesis
    proof (cases r)
      case (Inl e)
      with r s True show ?thesis by (simp add: receive_waveform_loop.simps [of n bs received w])
    next
      case (Inr chunk)
      with r s True "1.IH" [OF True r [symmetric] Inr] show ?thesis
        by (simp add: receive_waveform_loop.simps [of n bs received w])
    qed
  qed
qed

lemma receive_waveform_data_sent:
  "receive_waveform_data n bs w = (r, w') \<Longrightarrow> sent w' = sent w"
  using receive_waveform_loop_sent [of n bs "[]" w] by (simp add: receive_waveform_data_def)

lemma decode_block_max_sent: "sent (snd (decode_block_max data w)) = sent w"
  by (auto simp: decode_block_max_def Let_def split: sum.splits prod.splits
      dest: receive_waveform_data_sent)

lemma fetch_header_max_sent:
  "\<exists>k. sent (snd (fetch_header_max attempts w))
     = sent w @ replicate k (''WAVeform:DATA?'' @ [CHR 0x0A])"
proof (induction attempts arbitrary: w)
  case 0
  have "sent (snd (fetch_header_max 0 w)) = sent w @ replicate 0 (''WAVeform:DATA?'' @ [CHR 0x0A])"
    by simp
  then show ?case by blast
next
  case (Suc attempts)
  obtain data w1 where d: "receive_data_max 4096 (send_command ''WAVeform:DATA?'' w) = (data, w1)"
    by (cases "receive_data_max 4096 (send_command ''WAVeform:DATA?'' w)")
  have s1: "sent w1 = sent w @ replicate 1 (''WAVeform:DATA?'' @ [CHR 0x0A])"
    using receive_data_max_sent [of 4096 "send_command ''WAVeform:DATA?'' w"] d
    by (simp add: send_command_def)
  show ?case
  proof (cases "find_byte CHR ''#'' data \<noteq> - 1")
    case True
    with d have "snd (fetch_header_max (Suc attempts) w) = w1" by simp
    with s1 show ?thesis by blast
  next
    case False
    with d have e: "fetch_header_max (Suc attempts) w = fetch_header_max attempts (sleep 100 w1)"
      by simp
    obtain k where "sent (snd (fetch_header_max attempts (sleep 100 w1)))
        = sent (sleep 100 w1) @ replicate k (''WAVeform:DATA?'' @ [CHR 0x0A])"
      using Suc.IH by blast
    then have "sent (snd (fetch_header_max (Suc attempts) w))
        = sent w @ replicate (Suc k) (''WAVeform:DATA?'' @ [CHR 0x0A])"
      using s1 e by (simp add: sleep_def)
    then show ?thesis by blast
  qed
qed

lemma get_waveform_data_max_sent:
  "\<exists>k. sent (snd (get_waveform_data_max channel w))
     = sent w @ ((''WAVeform:SOURce CHAN'' @ str_nat channel) @ [CHR 0x0A])
         # replicate k (''WAVeform:DATA?'' @ [CHR 0x0A])"
proof -
  let ?w1 = "send_command (''WAVeform:SOURce CHAN'' @ str_nat channel) w"
  obtain k where k: "sent (snd (fetch_header_max 3 ?w1))
      = sent ?w1 @ replicate k (''WAVeform:DATA?'' @ [CHR 0x0A])"
    using fetch_header_max_sent by blast
  obtain r w2 where f: "fetch_header_max 3 ?w1 = (r, w2)" by (cases "fetch_header_max 3 ?w1")
  have "sent (snd (get_waveform_data_max channel w)) = sent w2"
    using f decode_block_max_sent by (cases r) (simp_all add: get_waveform_data_max_def)
  with k f show ?thesis by (simp add: send_command_def)
qed

lemma trigger_wait_max_sent:
  "\<exists>k. sent (snd (trigger_wait_max trigger_start w))
     = sent w @ replicate k (''TRIGger:STATus?'' @ [CHR 0x0A])"
proof (induction trigger_start w rule: trigger_wait_max.induct)
  case (1 trigger_start w)
  obtain r w' where r: "get_trigger_status_max w = (r, w')"
    by (cases "get_trigger_status_max w")
  have s1: "sent w' = sent w @ replicate 1 (''TRIGger:STATus?'' @ [CHR 0x0A])"
    using r receive_data_max_sent [of 4096 "send_command ''TRIGger:STATus?'' w"]
    by (auto simp: get_trigger_status_max_def send_command_def split: prod.splits sum.splits)
  show ?case
  proof (cases "\<exists>status. r = Inr status \<and> status \<noteq> ''TD'' \<and> \<not> now w' - trigger_start > 10000")
    case False
    then have "snd (trigger_wait_max trigger_start w) = w'"
      using r by (cases r) (auto simp: trigger_wait_max.simps [of trigger_start w])
    with s1 show ?thesis by blast
  next
    case True
    then obtain status where st: "r = Inr status" "status \<noteq> ''TD''"
        "\<not> now w' - trigger_start > 10000"
      by blast
    then have e: "trigger_wait_max trigger_start w = trigger_wait_max trigger_start (sleep 100 w')"
      using r by (simp add: trigger_wait_max.simps [of trigger_start w])
    obtain k where "sent (snd (trigger_wait_max trigger_start (sleep 100 w')))
        = sent (sleep 100 w') @ replicate k (''TRIGger:STATus?'' @ [CHR 0x0A])"
      using "1.IH" [OF r [symmetric] st] by blast
    then have "sent (snd (trigger_wait_max trigger_start w))
        = sent w @ replicate (Suc k) (''TRIGger:STATus?'' @ [CHR 0x0A])"
      using s1 e by (simp add: sleep_def)
    then show ?thesis by blast
  qed
qed

lemma flush_socket_sent:
  assumes "flush_socket w = Some w'"
  shows "sent w' = sent w"
proof (rule flush_socket.raw_induct [where P = "\<lambda>w w'. sent w' = sent w", OF _ assms])
  fix f w w'
  assume IH: "\<And>w w'. f w = Some w' \<Longrightarrow> sent w' = sent w"
    and eq: "(case recv_nowait 4096 w of (Inl e, w') \<Rightarrow> Some w' | (Inr chunk, w') \<Rightarrow> f w') = Some w'"
  obtain r w1 where r: "recv_nowait 4096 w = (r, w1)" by (cases "recv_nowait 4096 w")
  then have s: "sent w1 = sent w"
    by (auto simp: recv_nowait_def split: list.splits event.splits if_splits)
  show "sent w' = sent w"
  proof (cases r)
    case (Inl e)
    with eq r s show ?thesis by simp
  next
    case (Inr chunk)
    with eq r have "f w1 = Some w'" by simp
    then show ?thesis using IH s by simp
  qed
qed


lemma halted_at_fetch_pass:
  "halted_at_fetch False ((('':SINGle'' @ [CHR 0x0A]) # replicate k (''TRIGger:STATus?'' @ [CHR 0x0A]))) = Some False"
  "halted_at_fetch False ((('':SINGle'' @ [CHR 0x0A]) # replicate k (''TRIGger:STATus?'' @ [CHR 0x0A]))
      @ ('':STOP'' @ [CHR 0x0A]) # ((''WAVeform:SOURce CHAN'' @ c3) @ [CHR 0x0A])
          # replicate a (''WAVeform:DATA?'' @ [CHR 0x0A])) = Some True"
  "halted_at_fetch False (((('':SINGle'' @ [CHR 0x0A]) # replicate k (''TRIGger:STATus?'' @ [CHR 0x0A]))
      @ ('':STOP'' @ [CHR 0x0A]) # ((''WAVeform:SOURce CHAN'' @ c3) @ [CHR 0x0A])
          # replicate a (''WAVeform:DATA?'' @ [CHR 0x0A]))
      @ ((''WAVeform:SOURce CHAN'' @ c4) @ [CHR 0x0A]) # replicate b (''WAVeform:DATA?'' @ [CHR 0x0A]))
     = Some True"
  by (simp_all add: halted_at_fetch_append halted_at_fetch_polls [simplified]
      halted_at_fetch_queries [simplified])

text \<open>
  The max-mode script keeps the order that C9 states: in every pass of its acquisition
  loop that returns, normally or with an exception, the commands written are the arming
  command, the status queries of the wait and then, if the trigger was seen, \<^verbatim>\<open>:STOP\<close>
  before the first \<^verbatim>\<open>WAVeform:DATA?\<close>; no waveform query is written while the
  acquisition is armed and not stopped. (A pass that does not return is one that hangs in
  \<^verbatim>\<open>flush_socket\<close>, which writes nothing.)
\<close>

theorem max_stops_before_fetch:
  assumes "acquire_max w = Some (r, w')"
  shows "\<exists>cmds. sent w' = sent w @ cmds \<and> halted_at_fetch False cmds \<noteq> None"
proof -
  from assms obtain w0 where f0: "flush_socket w = Some w0"
    by (auto simp: acquire_max_def split: option.splits)
  let ?w1 = "send_command '':SINGle'' (sleep 50 w0)"
  have s1: "sent ?w1 = sent w @ [ '':SINGle'' @ [CHR 0x0A]]"
    using flush_socket_sent [OF f0] by (simp add: send_command_def sleep_def)
  obtain rw w2 where tw: "trigger_wait_max (now ?w1) ?w1 = (rw, w2)"
    by (cases "trigger_wait_max (now ?w1) ?w1")
  obtain k where "sent w2 = sent ?w1 @ replicate k (''TRIGger:STATus?'' @ [CHR 0x0A])"
    using trigger_wait_max_sent [of "now ?w1" ?w1] tw by auto
  then have s2: "sent w2 = sent w @ ('':SINGle'' @ [CHR 0x0A]) # replicate k (''TRIGger:STATus?'' @ [CHR 0x0A])"
    using s1 by simp
  show ?thesis
  proof (cases rw)
    case (Inl e)
    with assms f0 tw have "w' = w2" by (simp add: acquire_max_def Let_def)
    with s2 halted_at_fetch_pass(1) [of k] show ?thesis by auto
  next
    case (Inr u)
    let ?w2' = "sleep 50 (send_command '':STOP'' w2)"
    obtain r3 w3 where g3: "get_waveform_data_max 3 ?w2' = (r3, w3)"
      by (cases "get_waveform_data_max 3 ?w2'")
    obtain a where "sent w3 = sent ?w2' @ ((''WAVeform:SOURce CHAN'' @ str_nat 3) @ [CHR 0x0A])
         # replicate a (''WAVeform:DATA?'' @ [CHR 0x0A])"
      using get_waveform_data_max_sent [of 3 ?w2'] g3 by auto
    then have s3: "sent w3 = sent w @ (('':SINGle'' @ [CHR 0x0A]) # replicate k (''TRIGger:STATus?'' @ [CHR 0x0A]))
        @ ('':STOP'' @ [CHR 0x0A]) # ((''WAVeform:SOURce CHAN'' @ str_nat 3) @ [CHR 0x0A])
            # replicate a (''WAVeform:DATA?'' @ [CHR 0x0A])"
      using s2 by (simp add: send_command_def sleep_def)
    show ?thesis
    proof (cases r3)
      case e3: (Inl e)
      with assms f0 tw Inr g3 have "w' = w3" by (simp add: acquire_max_def Let_def)
      with s3 halted_at_fetch_pass(2) [of k "str_nat 3" a] show ?thesis by auto
    next
      case v3: (Inr voltage_ch3)
      with assms f0 tw Inr g3 obtain w4 where f4: "flush_socket w3 = Some w4"
        by (auto simp: acquire_max_def Let_def split: option.splits)
      obtain r4 w5 where g4: "get_waveform_data_max 4 w4 = (r4, w5)"
        by (cases "get_waveform_data_max 4 w4")
      obtain b where "sent w5 = sent w4 @ ((''WAVeform:SOURce CHAN'' @ str_nat 4) @ [CHR 0x0A])
           # replicate b (''WAVeform:DATA?'' @ [CHR 0x0A])"
        using get_waveform_data_max_sent [of 4 w4] g4 by auto
      then have s5: "sent w5 = sent w @ ((('':SINGle'' @ [CHR 0x0A]) # replicate k (''TRIGger:STATus?'' @ [CHR 0x0A]))
          @ ('':STOP'' @ [CHR 0x0A]) # ((''WAVeform:SOURce CHAN'' @ str_nat 3) @ [CHR 0x0A])
              # replicate a (''WAVeform:DATA?'' @ [CHR 0x0A]))
          @ ((''WAVeform:SOURce CHAN'' @ str_nat 4) @ [CHR 0x0A]) # replicate b (''WAVeform:DATA?'' @ [CHR 0x0A])"
        using s3 flush_socket_sent [OF f4] by simp
      have "w' = w5"
        using assms f0 tw Inr g3 v3 f4 g4 by (cases r4) (simp_all add: acquire_max_def Let_def)
      with s5 halted_at_fetch_pass(3) [of k "str_nat 3" a "str_nat 4" b] show ?thesis
        by (metis option.distinct(1))
    qed
  qed
qed


text \<open>Evaluation rules for a pass on closed worlds.\<close>

lemmas pass_defs =
  acquire_max_def acquire_normal_def arm_scope_normal_def get_waveform_data_max_def
  get_waveform_normal_def decode_block_max_def decode_block_normal_def recv_nowait_def

theorem max_stops_before_fetch_witness:
  "acquire_max
      \<lparr>sent = [],
       inbox = [Quiet, Data (''TD'' @ [CHR 0x0A]), Data ''#15hello'', Quiet, Data ''#15world''],
       sock_timeout = 20000, now = 0\<rparr>
     = Some (Inr (''hello'', ''world''),
      \<lparr>sent = ['':SINGle'' @ [CHR 0x0A], ''TRIGger:STATus?'' @ [CHR 0x0A],
               ''TRIGger:STATus?'' @ [CHR 0x0A], '':STOP'' @ [CHR 0x0A],
               ''WAVeform:SOURce CHAN3'' @ [CHR 0x0A], ''WAVeform:DATA?'' @ [CHR 0x0A],
               ''WAVeform:SOURce CHAN4'' @ [CHR 0x0A], ''WAVeform:DATA?'' @ [CHR 0x0A],
               ''WAVeform:DATA?'' @ [CHR 0x0A]],
       inbox = [], sock_timeout = 100, now = 500\<rparr>)
   \<and> (\<exists>cmds. ['':SINGle'' @ [CHR 0x0A], ''TRIGger:STATus?'' @ [CHR 0x0A],
               ''TRIGger:STATus?'' @ [CHR 0x0A], '':STOP'' @ [CHR 0x0A],
               ''WAVeform:SOURce CHAN3'' @ [CHR 0x0A], ''WAVeform:DATA?'' @ [CHR 0x0A],
               ''WAVeform:SOURce CHAN4'' @ [CHR 0x0A], ''WAVeform:DATA?'' @ [CHR 0x0A],
               ''WAVeform:DATA?'' @ [CHR 0x0A]] = [] @ cmds
         \<and> halted_at_fetch False cmds \<noteq> None)"
proof -
  have run: "acquire_max
      \<lparr>sent = [],
       inbox = [Quiet, Data (''TD'' @ [CHR 0x0A]), Data ''#15hello'', Quiet, Data ''#15world''],
       sock_timeout = 20000, now = 0\<rparr>
     = Some (Inr (''hello'', ''world''),
      \<lparr>sent = ['':SINGle'' @ [CHR 0x0A], ''TRIGger:STATus?'' @ [CHR 0x0A],
               ''TRIGger:STATus?'' @ [CHR 0x0A], '':STOP'' @ [CHR 0x0A],
               ''WAVeform:SOURce CHAN3'' @ [CHR 0x0A], ''WAVeform:DATA?'' @ [CHR 0x0A],
               ''WAVeform:SOURce CHAN4'' @ [CHR 0x0A], ''WAVeform:DATA?'' @ [CHR 0x0A],
               ''WAVeform:DATA?'' @ [CHR 0x0A]],
       inbox = [], sock_timeout = 100, now = 500\<rparr>)"
    by (simp add: pass_defs flush_socket.simps trigger_wait_max.simps receive_data_loop.simps
        receive_waveform_loop.simps numeral_3_eq_3 str_nat.simps status_defs io_defs parse_defs)
  show ?thesis using max_stops_before_fetch [OF run] run by simp
qed


end
